theory Spec2Isabelle
  imports Main "HOL-Library.Sublist"
begin

section \<open>Resource descriptors and the schema fingerprint\<close>

text \<open>
  The development follows \<^verbatim>\<open>src/ble-devicelink/bt-devicelink-device.js\<close>.
  A resource descriptor is the object literal returned by \<^verbatim>\<open>generateLwm2mModel\<close>:
  \<^verbatim>\<open>{ path, valueType, operation, value, observable }\<close>. The field \<^verbatim>\<open>value\<close> is
  called \<open>val\<close> here; \<^verbatim>\<open>observable\<close> is \<open>Some True\<close> or absent (\<open>None\<close>, the
  JavaScript \<^verbatim>\<open>undefined\<close>). Values are strings: the builder applies \<^verbatim>\<open>toString()\<close>
  to what a reader returns. The resource objects of the remote service are read through
  the same fields.
\<close>

record descriptor =
  path :: string
  valueType :: string
  operation :: "string list"
  val :: string
  observable :: "bool option"

subsection \<open>\<^verbatim>\<open>JSON.stringify\<close> on descriptors without their value\<close>

definition dq :: char where
  "dq = CHR 0x22"

definition bsl :: char where
  "bsl = CHR 0x5C"

definition hexdigit :: "nat \<Rightarrow> char" where
  "hexdigit n = ''0123456789abcdef'' ! (n mod 16)"

text \<open>
  One code unit of a quoted JSON string (ECMAScript \<^verbatim>\<open>QuoteJSONString\<close>): the short
  escapes, the quote, the backslash, \<^verbatim>\<open>\u00xx\<close> for the other control characters, and
  every other character as itself.
\<close>

definition json_escape :: "char \<Rightarrow> string" where
  "json_escape c =
     (if c = CHR 0x08 then [bsl, CHR ''b'']
      else if c = CHR 0x09 then [bsl, CHR ''t'']
      else if c = CHR 0x0A then [bsl, CHR ''n'']
      else if c = CHR 0x0C then [bsl, CHR ''f'']
      else if c = CHR 0x0D then [bsl, CHR ''r'']
      else if c = dq then [bsl, dq]
      else if c = bsl then [bsl, bsl]
      else if (of_char c :: nat) < 32
        then [bsl, CHR ''u'', CHR ''0'', CHR ''0'',
              hexdigit (of_char c div 16), hexdigit (of_char c mod 16)]
      else [c])"

definition json_string :: "string \<Rightarrow> string" where
  "json_string s = dq # concat (map json_escape s) @ [dq]"

fun json_items :: "string list \<Rightarrow> string" where
  "json_items [] = []"
| "json_items [x] = x"
| "json_items (x # y # ys) = x @ CHR '','' # json_items (y # ys)"

definition json_array :: "string list \<Rightarrow> string" where
  "json_array xs = CHR ''['' # json_items xs @ '']''"

definition json_bool :: "bool \<Rightarrow> string" where
  "json_bool b = (if b then ''true'' else ''false'')"

definition json_key :: "string \<Rightarrow> string" where
  "json_key k = dq # k @ [dq, CHR '':'']"

text \<open>
  The object that \<^verbatim>\<open>getSchema\<close> serialises is a copy of the rule after
  \<^verbatim>\<open>delete rule.value\<close>: the keys in insertion order, a property whose value is
  \<^verbatim>\<open>undefined\<close> left out.
\<close>

definition json_rule :: "descriptor \<Rightarrow> string" where
  "json_rule rule =
     CHR ''{'' # json_key ''path'' @ json_string (path rule)
       @ CHR '','' # json_key ''valueType'' @ json_string (valueType rule)
       @ CHR '','' # json_key ''operation'' @ json_array (map json_string (operation rule))
       @ (case observable rule of
            None \<Rightarrow> []
          | Some b \<Rightarrow> CHR '','' # json_key ''observable'' @ json_bool b)
       @ ''}''"

definition getSchema :: "descriptor list \<Rightarrow> string" where
  "getSchema model = json_array (map json_rule model)"

section \<open>JavaScript values, snapshots and the read/write mapping\<close>

datatype error = TypeError

text \<open>
  The values a reader sees. Numbers are integers of magnitude below \<open>10^21\<close>, which
  \<^verbatim>\<open>toString()\<close> prints digit by digit; properties found on prototypes (and the indices of
  a string) are outside the model of these values.
\<close>

datatype jsval =
    JUndefined
  | JNull
  | JBool bool
  | JNum int
  | JStr string
  | JObj "(string \<times> jsval) list"

text \<open>The property read \<^verbatim>\<open>v.k\<close>: it throws on \<^verbatim>\<open>undefined\<close> and \<^verbatim>\<open>null\<close>.\<close>

fun get_prop :: "jsval \<Rightarrow> string \<Rightarrow> error + jsval" where
  "get_prop JUndefined k = Inl TypeError"
| "get_prop JNull k = Inl TypeError"
| "get_prop (JObj kvs) k = (case map_of kvs k of Some v \<Rightarrow> Inr v | None \<Rightarrow> Inr JUndefined)"
| "get_prop (JStr s) k = (if k = ''length'' then Inr (JNum (int (length s))) else Inr JUndefined)"
| "get_prop (JBool b) k = Inr JUndefined"
| "get_prop (JNum n) k = Inr JUndefined"

definition digit_char :: "nat \<Rightarrow> char" where
  "digit_char n = ''0123456789'' ! (n mod 10)"

fun showNat :: "nat \<Rightarrow> string" where
  "showNat n = (if n < 10 then [digit_char n] else showNat (n div 10) @ [digit_char n])"

declare showNat.simps [simp del]

definition showInt :: "int \<Rightarrow> string" where
  "showInt i = (if i < 0 then CHR ''-'' # showNat (nat (- i)) else showNat (nat i))"

text \<open>The method call \<^verbatim>\<open>v.toString()\<close>.\<close>

fun toString :: "jsval \<Rightarrow> error + string" where
  "toString JUndefined = Inl TypeError"
| "toString JNull = Inl TypeError"
| "toString (JBool b) = Inr (if b then ''true'' else ''false'')"
| "toString (JNum n) = Inr (showInt n)"
| "toString (JStr s) = Inr s"
| "toString (JObj kvs) = Inr ''[object Object]''"

text \<open>
  A raw snapshot maps a service to its characteristics; a characteristic object carries
  its current \<^verbatim>\<open>value\<close> (\<open>cvalue\<close>) and the transport object \<^verbatim>\<open>char\<close> (\<open>handle\<close>).
  Objects are association lists in key order.
\<close>

record characteristic =
  cvalue :: jsval
  handle :: nat

type_synonym snapshot = "(string \<times> (string \<times> characteristic) list) list"

definition createSimplifiedModel :: "snapshot \<Rightarrow> jsval" where
  "createSimplifiedModel model =
     JObj (map (\<lambda>(service, chars).
             (service, JObj (map (\<lambda>(c, ch). (c, cvalue ch)) chars))) model)"

text \<open>
  A reader is called with the simplified snapshot and returns a value or throws. A writer
  is called with the written value and the \<^verbatim>\<open>write\<close> callback: what matters of it is the
  sequence of callback invocations \<^verbatim>\<open>write(path, aData)\<close> it makes and whether it throws.
  \<^verbatim>\<open>onPut\<close> tests \<^verbatim>\<open>cloudDefinition.write\<close> for absence, so the write mapping is optional
  (\<open>write'\<close>, as \<open>write\<close> is reserved).
\<close>

type_synonym reader = "jsval \<Rightarrow> error + jsval"

datatype adata = Single int | Array "int list"

type_synonym writer = "string \<Rightarrow> (string \<times> adata) list \<times> error option"

record cloudDefinition =
  read :: "(string \<times> reader) list"
  write' :: "(string \<times> writer) list option"

section \<open>The device object and the remote service\<close>

record device =
  address :: string
  state :: string
  stateError :: "string option"
  model :: "descriptor list"
  cloudDefinition :: cloudDefinition
  modelUpdateInProgress :: bool
  bleModel :: snapshot
  registered :: bool

text \<open>
  The constructor's field initialisation. Its start-up query of the registration status
  is not part of this development.
\<close>

definition BtDeviceLinkDevice :: "string \<Rightarrow> cloudDefinition \<Rightarrow> device" where
  "BtDeviceLinkDevice addr definition =
     \<lparr>address = addr, state = ''disconnected'', stateError = None, model = [],
      cloudDefinition = definition, modelUpdateInProgress = False, bleModel = [],
      registered = False\<rparr>"

text \<open>
  \<^verbatim>\<open>cloudDevice\<close> belongs to an external library. It is a parameter: a state \<open>'r\<close>, the
  \<^verbatim>\<open>resources\<close> object read from it (path to resource, in key order), and what an
  asynchronous call does: whether its promise resolves (\<open>True\<close>) or rejects, and the next
  state.
\<close>

datatype call =
    Register
  | Deregister
  | SetResourceModel "descriptor list"
  | SetValue string string

type_synonym resources = "(string \<times> descriptor) list"

record 'r service =
  resources :: "'r \<Rightarrow> resources"
  perform :: "call \<Rightarrow> 'r \<Rightarrow> bool \<times> 'r"

text \<open>What is observable: the lines logged, the events emitted, the remote calls with
  their outcome, the writer invocations and the characteristic writes.\<close>

datatype logmsg =
    LRegistering | LRegistered | LRegistrationFailed
  | LDeregistering | LDeregistered | LDeregistrationFailed
  | LAlreadyUpdating
  | LSchemaChangeTo "descriptor list"
  | LSetResourceModel | LOKSetResourceModel
  | LDeregister | LOKDeregister
  | LRegister | LOKRegister
  | LUpdateValue string string | LOKUpdateValue string string
  | LModelUpdateFailed
  | LNoWriteRule string
  | LWriteFromCloud string string
  | LWritingToChar string "int list"
  | LCouldNotFindChar

datatype event =
    Log logmsg
  | Emit string
  | Remote call bool
  | WriterCalled string string
  | CharWrite nat "int list"

fun calls :: "event list \<Rightarrow> (call \<times> bool) list" where
  "calls [] = []"
| "calls (Remote c ok # es) = (c, ok) # calls es"
| "calls (e # es) = calls es"

section \<open>\<^verbatim>\<open>generateLwm2mModel\<close>\<close>

fun indexOf :: "'a list \<Rightarrow> 'a \<Rightarrow> int" where
  "indexOf [] v = - 1"
| "indexOf (x # xs) v =
     (if x = v then 0 else (let i = indexOf xs v in if i = - 1 then - 1 else i + 1))"

text \<open>\<^verbatim>\<open>allKeys.filter((v, i, a) => a.indexOf(v) === i)\<close>\<close>

definition first_occurrences :: "'a list \<Rightarrow> 'a list" where
  "first_occurrences a =
     map snd (filter (\<lambda>(i, v). indexOf a v = int i) (enumerate 0 a))"

text \<open>The callback of \<^verbatim>\<open>allKeys.map\<close>: the descriptor of key \<open>k\<close>.\<close>

definition lwm2m_rule ::
  "cloudDefinition \<Rightarrow> resources \<Rightarrow> jsval \<Rightarrow> string list \<Rightarrow> string list \<Rightarrow> string \<Rightarrow> descriptor" where
  "lwm2m_rule definition res simplified readKeys writeKeys k =
     (let op = (if indexOf readKeys k > - 1 then [''GET''] else [])
             @ (if indexOf writeKeys k > - 1 then [''PUT''] else []);
          v = (case (if indexOf readKeys k > - 1
                     then (case map_of (read definition) k of
                             Some f \<Rightarrow> f simplified
                           | None \<Rightarrow> Inl TypeError)
                     else Inr (JStr [])) of
                 Inl ex \<Rightarrow> []
               | Inr x \<Rightarrow> (case toString x of Inl ex \<Rightarrow> [] | Inr s \<Rightarrow> s));
          v = (case map_of res (CHR ''/'' # k) of
                 Some r \<Rightarrow> if v = [] then val r else v
               | None \<Rightarrow> v)
      in \<lparr>path = CHR ''/'' # k, valueType = ''dynamic'', operation = op, val = v,
          observable = (if indexOf readKeys k > - 1 then Some True else None)\<rparr>)"

text \<open>\<^verbatim>\<open>Object.keys(definition.write)\<close> throws when the write mapping is absent.\<close>

definition generateLwm2mModel :: "device \<Rightarrow> resources \<Rightarrow> snapshot \<Rightarrow> error + descriptor list" where
  "generateLwm2mModel this res snap =
     (let definition = cloudDefinition this;
          readKeys = map fst (read definition)
      in case write' definition of
           None \<Rightarrow> Inl TypeError
         | Some w \<Rightarrow>
             (let writeKeys = map fst w;
                  allKeys = readKeys @ writeKeys;
                  simplified = createSimplifiedModel snap;
                  allKeys = first_occurrences allKeys
              in Inr (map (lwm2m_rule definition res simplified readKeys writeKeys) allKeys)))"

section \<open>\<^verbatim>\<open>bleModelUpdated\<close>\<close>

text \<open>
  The body of \<^verbatim>\<open>bleModelUpdated\<close> is an asynchronous function. It runs until its first
  \<^verbatim>\<open>await\<close>, where it is suspended on a remote call; when the call settles it runs on to
  the next \<^verbatim>\<open>await\<close> or to its end. A suspended body is a value of \<open>pending\<close>: the
  place of the \<^verbatim>\<open>await\<close> with the local variables \<^verbatim>\<open>curr\<close> (written \<open>cur\<close>),
  \<^verbatim>\<open>old\<close> and the rest of the loop. The promise chains of the \<^verbatim>\<open>statechange\<close> handler are the last two cases.
\<close>

datatype pending =
    AwaitSetResourceModel "descriptor list"
  | AwaitDeregister "descriptor list"
  | AwaitRegister "descriptor list"
  | AwaitSetValue "descriptor list" "descriptor list" descriptor "descriptor list"
  | AwaitConnRegister
  | AwaitDisconnDeregister

datatype status = Returned | Suspended pending | Threw error

fun awaited :: "pending \<Rightarrow> call" where
  "awaited (AwaitSetResourceModel cur) = SetResourceModel cur"
| "awaited (AwaitDeregister cur) = Deregister"
| "awaited (AwaitRegister cur) = Register"
| "awaited (AwaitSetValue cur old rule rest) = SetValue (path rule) (val rule)"
| "awaited AwaitConnRegister = Register"
| "awaited AwaitDisconnDeregister = Deregister"

text \<open>The \<^verbatim>\<open>catch\<close> block followed by \<^verbatim>\<open>finally\<close>.\<close>

definition model_update_failed :: "device \<Rightarrow> descriptor list \<Rightarrow> device \<times> event list \<times> status" where
  "model_update_failed this cur =
     (this\<lparr>modelUpdateInProgress := False, model := cur\<rparr>, [Log LModelUpdateFailed], Returned)"

text \<open>
  The loop \<^verbatim>\<open>for (let rule of cur)\<close> from the rules still to visit, up to its next
  \<^verbatim>\<open>await\<close>. \<open>oldValue\<close> is \<open>None\<close> for \<^verbatim>\<open>undefined\<close>. Reading \<^verbatim>\<open>setValue\<close> of a
  resource that does not exist throws inside the \<^verbatim>\<open>try\<close>.
\<close>

fun values_loop ::
  "device \<Rightarrow> resources \<Rightarrow> descriptor list \<Rightarrow> descriptor list \<Rightarrow> descriptor list
    \<Rightarrow> device \<times> event list \<times> status" where
  "values_loop this res cur old [] =
     (this\<lparr>modelUpdateInProgress := False, model := cur\<rparr>, [], Returned)"
| "values_loop this res cur old (rule # rest) =
     (let oldRule = find (\<lambda>r. path r = path rule) old;
          oldValue = (case oldRule of
                        None \<Rightarrow> (case map_of res (path rule) of
                                   Some r \<Rightarrow> Some (val r)
                                 | None \<Rightarrow> None)
                      | Some r \<Rightarrow> Some (val r))
      in if Some (val rule) \<noteq> oldValue \<and> registered this
         then (case map_of res (path rule) of
                 None \<Rightarrow>
                   (case model_update_failed this cur of
                      (this', evs, st) \<Rightarrow>
                        (this', Log (LUpdateValue (path rule) (val rule)) # evs, st))
               | Some r \<Rightarrow>
                   (this, [Log (LUpdateValue (path rule) (val rule))],
                    Suspended (AwaitSetValue cur old rule rest)))
         else values_loop this res cur old rest)"

definition bleModelUpdated :: "device \<Rightarrow> resources \<Rightarrow> snapshot \<Rightarrow> device \<times> event list \<times> status" where
  "bleModelUpdated this res snap =
     (case generateLwm2mModel this res snap of
        Inl ex \<Rightarrow> (this, [Emit ''ble-model-updated''], Threw ex)
      | Inr cur \<Rightarrow>
          (let old = model this;
               this = this\<lparr>bleModel := snap\<rparr>
           in if modelUpdateInProgress this
              then (this\<lparr>model := cur\<rparr>,
                    [Emit ''ble-model-updated'', Log LAlreadyUpdating], Returned)
              else
                (let this = this\<lparr>modelUpdateInProgress := True\<rparr>;
                     currSchema = getSchema cur;
                     oldSchema = getSchema (map snd res)
                 in if currSchema \<noteq> oldSchema \<and> registered this
                    then (this,
                          [Emit ''ble-model-updated'', Log (LSchemaChangeTo cur),
                           Log LSetResourceModel],
                          Suspended (AwaitSetResourceModel cur))
                    else (case values_loop this res cur old cur of
                            (this', evs, st) \<Rightarrow>
                              (this', Emit ''ble-model-updated'' # evs, st)))))"

text \<open>
  The continuation after an \<^verbatim>\<open>await\<close>, given the device and the resources as they are
  when the call settles, and whether it resolved.
\<close>

fun resume :: "device \<Rightarrow> resources \<Rightarrow> pending \<Rightarrow> bool \<Rightarrow> device \<times> event list \<times> status" where
  "resume this res (AwaitSetResourceModel cur) ok =
     (if ok then (this, [Log LOKSetResourceModel, Log LDeregister], Suspended (AwaitDeregister cur))
      else model_update_failed this cur)"
| "resume this res (AwaitDeregister cur) ok =
     (if ok then (this, [Log LOKDeregister, Log LRegister], Suspended (AwaitRegister cur))
      else model_update_failed this cur)"
| "resume this res (AwaitRegister cur) ok =
     (if ok then (this\<lparr>modelUpdateInProgress := False, model := cur\<rparr>, [Log LOKRegister], Returned)
      else model_update_failed this cur)"
| "resume this res (AwaitSetValue cur old rule rest) ok =
     (if ok
      then (case values_loop this res cur old rest of
              (this', evs, st) \<Rightarrow> (this', Log (LOKUpdateValue (path rule) (val rule)) # evs, st))
      else model_update_failed this cur)"
| "resume this res AwaitConnRegister ok =
     (if ok then (this\<lparr>registered := True\<rparr>, [Log LRegistered], Returned)
      else (this, [Log LRegistrationFailed], Returned))"
| "resume this res AwaitDisconnDeregister ok =
     (this\<lparr>registered := False\<rparr>,
      [Log (if ok then LDeregistered else LDeregistrationFailed)], Returned)"

text \<open>The number of calls a suspended body can still await.\<close>

fun calls_left :: "status \<Rightarrow> nat" where
  "calls_left (Suspended (AwaitSetResourceModel cur)) = 3"
| "calls_left (Suspended (AwaitDeregister cur)) = 2"
| "calls_left (Suspended (AwaitRegister cur)) = 1"
| "calls_left (Suspended (AwaitSetValue cur old rule rest)) = Suc (length rest)"
| "calls_left (Suspended AwaitConnRegister) = 1"
| "calls_left (Suspended AwaitDisconnDeregister) = 1"
| "calls_left Returned = 0"
| "calls_left (Threw ex) = 0"

text \<open>
  One body run to its end with nothing else scheduled in between: every awaited call is
  performed by the service and the body resumed with its outcome.
\<close>

function run :: "'r service \<Rightarrow> device \<Rightarrow> 'r \<Rightarrow> status \<Rightarrow> device \<times> 'r \<times> event list" where
  "run svc this r Returned = (this, r, [])"
| "run svc this r (Threw ex) = (this, r, [])"
| "run svc this r (Suspended p) =
     (case perform svc (awaited p) r of
        (ok, r') \<Rightarrow>
          (case resume this (resources svc r') p ok of
             (this', evs, st) \<Rightarrow>
               (case run svc this' r' st of
                  (this'', r'', evs') \<Rightarrow> (this'', r'', Remote (awaited p) ok # evs @ evs'))))"
  by pat_completeness auto

lemma values_loop_calls_left:
  "values_loop this res cur old rules = (this', evs, st) \<Longrightarrow> calls_left st \<le> length rules"
  by (induction rules)
    (auto simp: model_update_failed_def Let_def split: if_splits option.splits)

lemma resume_calls_left:
  "resume this res p ok = (this', evs, st) \<Longrightarrow> calls_left st < calls_left (Suspended p)"
  by (cases p)
    (auto simp: model_update_failed_def split: if_splits prod.splits
      dest: values_loop_calls_left)

termination run
proof (relation "measure (\<lambda>(svc, this, r, st). calls_left st)")
  show "wf (measure (\<lambda>(svc, this, r, st). calls_left st))" by simp
next
  fix svc :: "'r service" and this :: device and r :: 'r and p x1 x2 x1a x2a x1b x2b
  assume "(x1, x2) = perform svc (awaited p) r"
    "(x1a, x2a) = resume this (resources svc x2) p x1" "(x1b, x2b) = x2a"
  then have "resume this (resources svc x2) p x1 = (x1a, x1b, x2b)" by simp
  from resume_calls_left [OF this]
  show "((svc, x1a, x2, x2b), svc, this, r, Suspended p)
      \<in> measure (\<lambda>(svc, this, r, st). calls_left st)"
    by simp
qed

text \<open>A snapshot reconciled from its arrival to the end of the asynchronous body.\<close>

definition reconcile :: "'r service \<Rightarrow> device \<Rightarrow> 'r \<Rightarrow> snapshot \<Rightarrow> device \<times> 'r \<times> event list" where
  "reconcile svc this r snap =
     (case bleModelUpdated this (resources svc r) snap of
        (this', evs, st) \<Rightarrow>
          (case run svc this' r st of
             (this'', r', evs') \<Rightarrow> (this'', r', evs @ evs')))"

section \<open>The \<^verbatim>\<open>statechange\<close> handler and \<^verbatim>\<open>updateState\<close>\<close>

definition on_statechange :: "device \<Rightarrow> string \<Rightarrow> device \<times> event list \<times> status" where
  "on_statechange this ev =
     (if ev = ''connected'' then
        (if registered this then (this, [], Returned)
         else (this, [Log LRegistering], Suspended AwaitConnRegister))
      else if ev = ''disconnected'' then
        (if \<not> registered this then (this, [], Returned)
         else (this, [Log LDeregistering], Suspended AwaitDisconnDeregister))
      else (this, [], Returned))"

definition updateState :: "device \<Rightarrow> string \<Rightarrow> string option \<Rightarrow> device \<times> event list \<times> status" where
  "updateState this st err =
     (case on_statechange (this\<lparr>state := st, stateError := err\<rparr>) st of
        (this', evs, s) \<Rightarrow> (this', Emit ''statechange'' # evs, s))"

text \<open>A connectivity transition handled to the end of its promise chain.\<close>

definition statechange :: "'r service \<Rightarrow> device \<Rightarrow> 'r \<Rightarrow> string \<Rightarrow> device \<times> 'r \<times> event list" where
  "statechange svc this r ev =
     (case on_statechange this ev of
        (this', evs, st) \<Rightarrow>
          (case run svc this' r st of
             (this'', r', evs') \<Rightarrow> (this'', r', evs @ evs')))"

section \<open>\<^verbatim>\<open>onPut\<close>\<close>

text \<open>\<^verbatim>\<open>path.split('/')\<close>\<close>

fun split :: "char \<Rightarrow> string \<Rightarrow> string list" where
  "split c [] = [[]]"
| "split c (x # xs) =
     (if x = c then [] # split c xs
      else (case split c xs of
              [] \<Rightarrow> [[x]]
            | w # ws \<Rightarrow> (x # w) # ws))"

text \<open>
  The write mapping, the snapshot and its services are plain objects. A property read
  \<^verbatim>\<open>obj[key]\<close> on a plain object finds the object's own keys and, behind them, the
  members it inherits from \<^verbatim>\<open>Object.prototype\<close>: eleven functions and the accessor
  \<^verbatim>\<open>__proto__\<close>, whose value is \<^verbatim>\<open>Object.prototype\<close> itself. All twelve are truthy, none
  has a property \<^verbatim>\<open>char\<close>, and only the functions can be called.
\<close>

definition object_prototype_names :: "string list" where
  "object_prototype_names =
     [''constructor'', ''__defineGetter__'', ''__defineSetter__'', ''hasOwnProperty'',
      ''__lookupGetter__'', ''__lookupSetter__'', ''isPrototypeOf'', ''propertyIsEnumerable'',
      ''toString'', ''valueOf'', ''__proto__'', ''toLocaleString'']"

datatype 'a property = Own 'a | Inherited string | Missing

definition read_property :: "(string \<times> 'a) list \<Rightarrow> string \<Rightarrow> 'a property" where
  "read_property obj k =
     (case map_of obj k of
        Some x \<Rightarrow> Own x
      | None \<Rightarrow> if k \<in> set object_prototype_names then Inherited k else Missing)"

text \<open>
  How a call of \<^verbatim>\<open>write\<close> or of \<^verbatim>\<open>onPut\<close> ends: it returns, it throws, or it has gone
  into a built-in object of the language (the member of \<^verbatim>\<open>Object.prototype\<close> of that name),
  where this development does not follow it.
\<close>

datatype outcome = Done | Raised error | Builtin string

text \<open>
  The local function \<^verbatim>\<open>write(path, aData)\<close>. A missing second segment makes the
  property name \<^verbatim>\<open>undefined\<close>; \<^verbatim>\<open>new Buffer\<close> keeps the low eight bits of each number.
  A service name that is inherited leads into a built-in object; a characteristic name that
  is inherited passes the test and then fails on \<^verbatim>\<open>.char.write\<close>.
\<close>

definition write_char :: "device \<Rightarrow> string \<Rightarrow> adata \<Rightarrow> event list \<times> outcome" where
  "write_char self p aData =
     (let aData = (case aData of Array ns \<Rightarrow> ns | Single n \<Rightarrow> [n]);
          s = split (CHR ''/'') p;
          service = (case s of [] \<Rightarrow> ''undefined'' | a # rest \<Rightarrow> a);
          char = (case s of a # b # rest \<Rightarrow> b | _ \<Rightarrow> ''undefined'')
      in case read_property (bleModel self) service of
           Missing \<Rightarrow> ([Log (LWritingToChar p aData), Log LCouldNotFindChar], Done)
         | Inherited m \<Rightarrow> ([Log (LWritingToChar p aData)], Builtin m)
         | Own chars \<Rightarrow>
             (case read_property chars char of
                Missing \<Rightarrow> ([Log (LWritingToChar p aData), Log LCouldNotFindChar], Done)
              | Inherited m \<Rightarrow> ([Log (LWritingToChar p aData)], Raised TypeError)
              | Own ch \<Rightarrow>
                  ([Log (LWritingToChar p aData),
                    CharWrite (handle ch) (map (\<lambda>n. n mod 256) aData)], Done)))"

text \<open>
  The callback invocations of a writer, in order. A writer is taken not to catch what the
  callback throws, so the first invocation that does not return ends the sequence.
\<close>

fun write_all :: "device \<Rightarrow> (string \<times> adata) list \<Rightarrow> event list \<times> outcome" where
  "write_all self [] = ([], Done)"
| "write_all self ((target, aData) # requests) =
     (case write_char self target aData of
        (evs, Done) \<Rightarrow>
          (case write_all self requests of (evs', out) \<Rightarrow> (evs @ evs', out))
      | (evs, out) \<Rightarrow> (evs, out))"

text \<open>
  \<^verbatim>\<open>onPut\<close>. The guard reads \<^verbatim>\<open>write[path.substr(1)]\<close> as a property, so an inherited
  member passes it: the write is logged and the member is called with the value and the
  callback, which throws for \<^verbatim>\<open>__proto__\<close> (not a function).
\<close>

definition onPut :: "device \<Rightarrow> string \<Rightarrow> string \<Rightarrow> device \<times> event list \<times> outcome" where
  "onPut this p v =
     (case write' (cloudDefinition this) of
        None \<Rightarrow> (this, [Log (LNoWriteRule p)], Done)
      | Some w \<Rightarrow>
          (case read_property w (drop 1 p) of
             Missing \<Rightarrow> (this, [Log (LNoWriteRule p)], Done)
           | Inherited m \<Rightarrow>
               (this, [Log (LWriteFromCloud p v)],
                if m = ''__proto__'' then Raised TypeError else Builtin m)
           | Own writer \<Rightarrow>
               (case writer v of
                  (requests, ex) \<Rightarrow>
                    (case write_all this requests of
                       (evs, out) \<Rightarrow>
                         (this,
                          Log (LWriteFromCloud p v) # WriterCalled (drop 1 p) v # evs,
                          (case out of
                             Done \<Rightarrow> (case ex of None \<Rightarrow> Done | Some e \<Rightarrow> Raised e)
                           | _ \<Rightarrow> out))))))"

section \<open>Reference notions\<close>

text \<open>The value-free part of a descriptor, which the fingerprint is about.\<close>

definition schema_of :: "descriptor \<Rightarrow> string \<times> string \<times> string list \<times> bool option" where
  "schema_of d = (path d, valueType d, operation d, observable d)"

text \<open>Deduplication in first-seen order.\<close>

fun first_seen :: "'a list \<Rightarrow> 'a list" where
  "first_seen [] = []"
| "first_seen (x # xs) = x # filter (\<lambda>y. y \<noteq> x) (first_seen xs)"

text \<open>
  A remote service that exposes what it was given: \<^verbatim>\<open>setResourceModel\<close> installs the
  descriptors under their paths, \<^verbatim>\<open>setValue\<close> stores the value in its resource, and
  registration leaves the resources alone. \<open>exposes svc\<close> asks this of every call that
  resolves.
\<close>

fun effect :: "call \<Rightarrow> resources \<Rightarrow> resources" where
  "effect (SetResourceModel ds) res = map (\<lambda>d. (path d, d)) ds"
| "effect (SetValue p v) res = map (\<lambda>(k, d). (k, if k = p then d\<lparr>val := v\<rparr> else d)) res"
| "effect Register res = res"
| "effect Deregister res = res"

definition exposes :: "'r service \<Rightarrow> bool" where
  "exposes svc \<longleftrightarrow>
     (\<forall>c r. fst (perform svc c r)
        \<longrightarrow> resources svc (snd (perform svc c r)) = effect c (resources svc r))"

text \<open>
  The value-update phase in the words of its description: the entries are visited in list
  order; an entry is changed when its value differs from the value of the last reconciled
  descriptor of its path or, without one, from the value the remote service holds for the
  path; each changed entry of a registered device has its value pushed, the next entry being
  visited once the call has resolved; a call that rejects ends the phase, and so does a
  changed entry whose resource does not exist.
\<close>

definition changed :: "descriptor list \<Rightarrow> resources \<Rightarrow> descriptor \<Rightarrow> bool" where
  "changed old res rule \<longleftrightarrow>
     (case find (\<lambda>r. path r = path rule) old of
        Some r \<Rightarrow> val r \<noteq> val rule
      | None \<Rightarrow> (case map_of res (path rule) of
                   Some r \<Rightarrow> val r \<noteq> val rule
                 | None \<Rightarrow> True))"

fun changed_pushes ::
  "'r service \<Rightarrow> bool \<Rightarrow> 'r \<Rightarrow> descriptor list \<Rightarrow> descriptor list \<Rightarrow> (call \<times> bool) list" where
  "changed_pushes svc reg r old [] = []"
| "changed_pushes svc reg r old (rule # rest) =
     (if reg \<and> changed old (resources svc r) rule then
        (if map_of (resources svc r) (path rule) = None then []
         else (case perform svc (SetValue (path rule) (val rule)) r of
                 (ok, r') \<Rightarrow>
                   (SetValue (path rule) (val rule), ok)
                     # (if ok then changed_pushes svc reg r' old rest else [])))
      else changed_pushes svc reg r old rest)"

text \<open>The suspended bodies that belong to a reconciliation.\<close>

fun is_reconciling :: "pending \<Rightarrow> bool" where
  "is_reconciling AwaitConnRegister = False"
| "is_reconciling AwaitDisconnDeregister = False"
| "is_reconciling p = True"

fun reconciling :: "status \<Rightarrow> bool" where
  "reconciling (Suspended p) = is_reconciling p"
| "reconciling st = True"

text \<open>The suspended bodies of the reconciliation of one descriptor list.\<close>

fun carries :: "descriptor list \<Rightarrow> pending \<Rightarrow> bool" where
  "carries cur (AwaitSetResourceModel c) \<longleftrightarrow> c = cur"
| "carries cur (AwaitDeregister c) \<longleftrightarrow> c = cur"
| "carries cur (AwaitRegister c) \<longleftrightarrow> c = cur"
| "carries cur (AwaitSetValue c old rule rest) \<longleftrightarrow> c = cur"
| "carries cur AwaitConnRegister \<longleftrightarrow> False"
| "carries cur AwaitDisconnDeregister \<longleftrightarrow> False"

text \<open>
  Resources that differ from \<open>res0\<close> only in values, each changed value being the value
  of a rule of \<open>cur\<close> with the resource's key as path.
\<close>

definition same_but_pushed :: "descriptor list \<Rightarrow> resources \<Rightarrow> resources \<Rightarrow> bool" where
  "same_but_pushed cur res0 res \<longleftrightarrow>
     map (schema_of \<circ> snd) res = map (schema_of \<circ> snd) res0 \<and>
     (\<forall>key. rel_option
        (\<lambda>d d0. val d = val d0 \<or> (\<exists>rule \<in> set cur. path rule = key \<and> val rule = val d))
        (map_of res key) (map_of res0 key))"

section \<open>Test fixtures\<close>

text \<open>
  A scripted service: its state is the resources and the outcomes of the calls to come
  (a call past the end of the script resolves); a call that resolves has its
  \<open>effect\<close>, one that rejects has none.
\<close>

definition scripted :: "(resources \<times> bool list) service" where
  "scripted =
     \<lparr>resources = fst,
      perform = (\<lambda>c (res, script).
        (case script of
           [] \<Rightarrow> (True, (effect c res, []))
         | ok # script' \<Rightarrow> (ok, ((if ok then effect c res else res), script'))))\<rparr>"

text \<open>The readers \<^verbatim>\<open>snap => snap.svc.c1.value\<close> and \<^verbatim>\<open>snap => snap.svc.c1\<close>.\<close>

definition read_svc_c1_value :: reader where
  "read_svc_c1_value snap =
     (case get_prop snap ''svc'' of
        Inl ex \<Rightarrow> Inl ex
      | Inr svc \<Rightarrow>
          (case get_prop svc ''c1'' of
             Inl ex \<Rightarrow> Inl ex
           | Inr c1 \<Rightarrow> get_prop c1 ''value''))"

definition read_svc_c1 :: reader where
  "read_svc_c1 snap =
     (case get_prop snap ''svc'' of
        Inl ex \<Rightarrow> Inl ex
      | Inr svc \<Rightarrow> get_prop svc ''c1'')"

definition read_svc_c2 :: reader where
  "read_svc_c2 snap =
     (case get_prop snap ''svc'' of
        Inl ex \<Rightarrow> Inl ex
      | Inr svc \<Rightarrow> get_prop svc ''c2'')"

text \<open>The snapshot \<^verbatim>\<open>{svc: {c1: {value: 21}, c2: {value: 7}}}\<close> and its mappings.\<close>

definition snap21 :: snapshot where
  "snap21 = [(''svc'', [(''c1'', \<lparr>cvalue = JNum 21, handle = 1\<rparr>),
                        (''c2'', \<lparr>cvalue = JNum 7, handle = 2\<rparr>)])]"

definition snap_c1 :: snapshot where
  "snap_c1 = [(''svc'', [(''c1'', \<lparr>cvalue = JNum 21, handle = 1\<rparr>)])]"

definition temp_value_definition :: cloudDefinition where
  "temp_value_definition = \<lparr>read = [(''temp'', read_svc_c1_value)], write' = Some []\<rparr>"

definition temp_definition :: cloudDefinition where
  "temp_definition = \<lparr>read = [(''temp'', read_svc_c1)], write' = Some []\<rparr>"

definition two_definition :: cloudDefinition where
  "two_definition =
     \<lparr>read = [(''temp'', read_svc_c1), (''hum'', read_svc_c2)], write' = Some []\<rparr>"

text \<open>The resources after a \<^verbatim>\<open>setResourceModel\<close> of both readable keys with old values.\<close>

definition two_resources :: resources where
  "two_resources =
     [(''/temp'', \<lparr>path = ''/temp'', valueType = ''dynamic'', operation = [''GET''],
                   val = ''20'', observable = Some True\<rparr>),
      (''/hum'', \<lparr>path = ''/hum'', valueType = ''dynamic'', operation = [''GET''],
                  val = ''6'', observable = Some True\<rparr>)]"

definition temp_rule :: "string list \<Rightarrow> string \<Rightarrow> descriptor" where
  "temp_rule ops v = \<lparr>path = ''/temp'', valueType = ''dynamic'', operation = ops, val = v, observable = Some True\<rparr>"

definition temp_device :: device where
  "temp_device = BtDeviceLinkDevice ''aa:bb'' temp_definition"

definition two_device :: device where
  "two_device = BtDeviceLinkDevice ''aa:bb'' two_definition"

definition temp_value_device :: device where
  "temp_value_device = BtDeviceLinkDevice ''aa:bb'' temp_value_definition"

definition led_writer :: writer where
  "led_writer v = ([(''svc/c1'', Single 1)], None)"

definition rw_definition :: cloudDefinition where
  "rw_definition =
     \<lparr>read = [(''temp'', read_svc_c1), (''led'', read_svc_c2)],
      write' = Some [(''led'', led_writer), (''name'', led_writer)]\<rparr>"

definition rw_device :: device where
  "rw_device = BtDeviceLinkDevice ''aa:bb'' rw_definition"

definition registered_temp_device :: device where
  "registered_temp_device = temp_device\<lparr>registered := True\<rparr>"

definition registered_two_device :: device where
  "registered_two_device = two_device\<lparr>registered := True\<rparr>"

definition in_flight_device :: device where
  "in_flight_device = fst (bleModelUpdated registered_temp_device [] snap_c1)"

definition snap22 :: snapshot where
  "snap22 = [(''svc'', [(''c1'', \<lparr>cvalue = JNum 22, handle = 1\<rparr>)])]"

section \<open>Properties\<close>

subsection \<open>The fingerprint is injective on the value-free part\<close>

lemma hexdigit_inj: "a < 16 \<Longrightarrow> b < 16 \<Longrightarrow> hexdigit a = hexdigit b \<Longrightarrow> a = b"
proof -
  assume a: "a < 16" and b: "b < 16" and e: "hexdigit a = hexdigit b"
  have d: "distinct ''0123456789abcdef''" by simp
  have l: "length ''0123456789abcdef'' = 16" by simp
  from e have "''0123456789abcdef'' ! a = ''0123456789abcdef'' ! b"
    using a b by (simp add: hexdigit_def)
  with d l a b show "a = b"
    by (metis nth_eq_iff_index_eq)
qed

lemma of_char_split: "(of_char c :: nat) = 16 * (of_char c div 16) + of_char c mod 16"
  by simp

lemma json_escape_cancel:
  assumes "json_escape c @ x = json_escape d @ y"
  shows "c = d \<and> x = y"
proof -
  have u: "c = d" if "(of_char c :: nat) < 32" "(of_char d :: nat) < 32"
     "hexdigit (of_char c div 16) = hexdigit (of_char d div 16)"
     "hexdigit (of_char c mod 16) = hexdigit (of_char d mod 16)" for c d :: char
  proof -
    have "(of_char c :: nat) div 16 = of_char d div 16"
      using that by (intro hexdigit_inj) auto
    moreover have "(of_char c :: nat) mod 16 = of_char d mod 16"
      using that by (intro hexdigit_inj) auto
    ultimately have "(of_char c :: nat) = of_char d"
      by (metis of_char_split)
    then show ?thesis by simp
  qed
  from assms show ?thesis
    by (auto simp: json_escape_def dq_def bsl_def split: if_splits dest: u)
qed


lemma json_escape_not_dq: "json_escape c @ x \<noteq> dq # y"
  by (auto simp: json_escape_def dq_def bsl_def split: if_splits)

lemma json_escape_not_dq': "dq # y \<noteq> json_escape c @ x"
  using json_escape_not_dq [of c x y] by metis

lemma escs_cancel:
  "concat (map json_escape s) @ dq # x = concat (map json_escape t) @ dq # y \<Longrightarrow> s = t \<and> x = y"
proof (induction s arbitrary: t)
  case Nil
  then show ?case
    by (cases t) (auto simp: json_escape_not_dq')
next
  case (Cons c s)
  show ?case
  proof (cases t)
    case Nil
    with Cons.prems have "json_escape c @ (concat (map json_escape s) @ dq # x) = dq # y"
      by simp
    then show ?thesis by (simp add: json_escape_not_dq)
  next
    case (Cons d t')
    with Cons.prems have "json_escape c @ (concat (map json_escape s) @ dq # x)
        = json_escape d @ (concat (map json_escape t') @ dq # y)"
      by simp
    from json_escape_cancel [OF this]
    have "c = d" and "concat (map json_escape s) @ dq # x = concat (map json_escape t') @ dq # y"
      by simp_all
    with Cons.IH [of t'] Cons show ?thesis by simp
  qed
qed

lemma json_string_cancel: "json_string s @ x = json_string t @ y \<Longrightarrow> s = t \<and> x = y"
  using escs_cancel [of s x t y] by (simp add: json_string_def)

lemma json_items_Cons:
  "json_items (x # xs) = x @ (if xs = [] then [] else CHR '','' # json_items xs)"
  by (cases xs) simp_all

text \<open>Elements with a self-delimiting code that never starts with a bracket or a comma.\<close>

lemma json_items_cancel:
  assumes cancel: "\<And>a b x y. f a @ x = f b @ y \<Longrightarrow> g a = g b \<and> x = y"
    and start: "\<And>a x y. f a @ x \<noteq> CHR '']'' # y"
  shows "json_items (map f xs) @ CHR '']'' # x = json_items (map f ys) @ CHR '']'' # y
    \<Longrightarrow> map g xs = map g ys \<and> x = y"
proof (induction xs arbitrary: ys)
  case Nil
  then show ?case
  proof (cases ys)
    case Nil
    with Nil.prems show ?thesis by simp
  next
    case (Cons b ys')
    with Nil.prems have "f b @ ((if ys' = [] then [] else CHR '','' # json_items (map f ys')) @ CHR '']'' # y) = CHR '']'' # x"
      by (simp add: json_items_Cons)
    with start show ?thesis by blast
  qed
next
  case (Cons a xs)
  show ?case
  proof (cases ys)
    case Nil
    with Cons.prems have "f a @ ((if xs = [] then [] else CHR '','' # json_items (map f xs)) @ CHR '']'' # x) = CHR '']'' # y"
      by (simp add: json_items_Cons)
    with start show ?thesis by blast
  next
    case ys: (Cons b ys')
    let ?R = "\<lambda>zs z. (if zs = [] then [] else CHR '','' # json_items (map f zs)) @ CHR '']'' # z"
    from Cons.prems ys have "f a @ ?R xs x = f b @ ?R ys' y"
      by (simp add: json_items_Cons)
    from cancel [OF this] have ab: "g a = g b" and R: "?R xs x = ?R ys' y"
      by simp_all
    show ?thesis
    proof (cases "xs = []")
      case True
      with R have "ys' = []" "x = y" by (auto split: if_splits)
      with True ab ys show ?thesis by simp
    next
      case False
      with R have "ys' \<noteq> []" by (auto split: if_splits)
      with False R have "json_items (map f xs) @ CHR '']'' # x = json_items (map f ys') @ CHR '']'' # y"
        by simp
      from Cons.IH [OF this] ab ys show ?thesis by simp
    qed
  qed
qed

lemma json_array_cancel:
  assumes cancel: "\<And>a b x y. f a @ x = f b @ y \<Longrightarrow> g a = g b \<and> x = y"
    and start: "\<And>a x y. f a @ x \<noteq> CHR '']'' # y"
  shows "json_array (map f xs) @ x = json_array (map f ys) @ y \<Longrightarrow> map g xs = map g ys \<and> x = y"
  using json_items_cancel [where f = f and g = g, OF cancel start, of xs x ys y]
  by (simp add: json_array_def)

lemma json_strings_cancel:
  "json_array (map json_string xs) @ x = json_array (map json_string ys) @ y \<Longrightarrow> xs = ys \<and> x = y"
proof -
  assume a: "json_array (map json_string xs) @ x = json_array (map json_string ys) @ y"
  have "map id xs = map id ys \<and> x = y"
  proof (rule json_array_cancel [where f = json_string and g = id, OF _ _ a])
    show "\<And>a b x y. json_string a @ x = json_string b @ y \<Longrightarrow> id a = id b \<and> x = y"
      by (simp only: id_apply) (erule json_string_cancel)
    show "\<And>a x y. json_string a @ x \<noteq> CHR '']'' # y"
      by (simp add: json_string_def dq_def)
  qed
  then show ?thesis by simp
qed

lemma json_rule_cancel:
  assumes "json_rule a @ x = json_rule b @ y"
  shows "schema_of a = schema_of b \<and> x = y"
proof -
  let ?O = "\<lambda>d z. (case observable d of None \<Rightarrow> [] | Some b \<Rightarrow> CHR '','' # json_key ''observable'' @ json_bool b) @ CHR ''}'' # z"
  let ?A = "\<lambda>d z. json_array (map json_string (operation d)) @ ?O d z"
  let ?V = "\<lambda>d z. json_string (valueType d) @ CHR '','' # json_key ''operation'' @ ?A d z"
  from assms have "json_string (path a) @ CHR '','' # json_key ''valueType'' @ ?V a x
      = json_string (path b) @ CHR '','' # json_key ''valueType'' @ ?V b y"
    by (simp add: json_rule_def)
  from json_string_cancel [OF this] have p: "path a = path b" and "?V a x = ?V b y"
    by simp_all
  from json_string_cancel [OF this(2)] have v: "valueType a = valueType b" and "?A a x = ?A b y"
    by simp_all
  from json_strings_cancel [OF this(2)] have o: "operation a = operation b" and "?O a x = ?O b y"
    by simp_all
  then have "observable a = observable b \<and> x = y"
    by (auto simp: json_bool_def split: option.splits if_splits)
  with p v o show ?thesis by (simp add: schema_of_def)
qed

lemma getSchema_inj: "getSchema xs = getSchema ys \<Longrightarrow> map schema_of xs = map schema_of ys"
proof -
  assume "getSchema xs = getSchema ys"
  then have a: "json_array (map json_rule xs) @ [] = json_array (map json_rule ys) @ []"
    by (simp add: getSchema_def)
  have "map schema_of xs = map schema_of ys \<and> ([]::string) = []"
  proof (rule json_array_cancel [where f = json_rule and g = schema_of, OF _ _ a])
    show "\<And>a b x y. json_rule a @ x = json_rule b @ y \<Longrightarrow> schema_of a = schema_of b \<and> x = y"
      by (rule json_rule_cancel)
    show "\<And>a x y. json_rule a @ x \<noteq> CHR '']'' # y"
      by (simp add: json_rule_def)
  qed
  then show ?thesis by simp
qed

lemma json_rule_cong: "schema_of a = schema_of b \<Longrightarrow> json_rule a = json_rule b"
  by (simp add: schema_of_def json_rule_def)

lemma getSchema_cong: "map schema_of xs = map schema_of ys \<Longrightarrow> getSchema xs = getSchema ys"
proof -
  assume a: "map schema_of xs = map schema_of ys"
  have "map json_rule xs = map json_rule ys" using a
  proof (induction xs arbitrary: ys)
    case Nil
    then show ?case by simp
  next
    case (Cons x xs)
    then obtain y ys' where "ys = y # ys'" "schema_of x = schema_of y"
        "map schema_of xs = map schema_of ys'"
      by (cases ys) auto
    with Cons.IH [of ys'] json_rule_cong [of x y] show ?case by simp
  qed
  then show ?thesis by (simp add: getSchema_def)
qed

lemma getSchema_eq_iff: "getSchema xs = getSchema ys \<longleftrightarrow> map schema_of xs = map schema_of ys"
  using getSchema_inj getSchema_cong by blast


lemma schema_of_val: "schema_of (d\<lparr>val := v\<rparr>) = schema_of d"
  by (simp add: schema_of_def)

text \<open>
  C5. The fingerprint of a descriptor list does not see the values: two lists that differ
  only in their value fields have one fingerprint; and two lists that differ at some
  position in the path, the operations or the observable flag have different fingerprints.
\<close>

theorem schema_fingerprint:
  "(map (\<lambda>d. d\<lparr>val := []\<rparr>) xs = map (\<lambda>d. d\<lparr>val := []\<rparr>) ys \<longrightarrow> getSchema xs = getSchema ys) \<and>
   (\<forall>i. i < length xs \<and> i < length ys \<and>
      (path (xs ! i) \<noteq> path (ys ! i) \<or> operation (xs ! i) \<noteq> operation (ys ! i)
        \<or> observable (xs ! i) \<noteq> observable (ys ! i))
      \<longrightarrow> getSchema xs \<noteq> getSchema ys)"
proof (intro conjI allI impI)
  assume "map (\<lambda>d. d\<lparr>val := []\<rparr>) xs = map (\<lambda>d. d\<lparr>val := []\<rparr>) ys"
  then have "map schema_of (map (\<lambda>d. d\<lparr>val := []\<rparr>) xs) = map schema_of (map (\<lambda>d. d\<lparr>val := []\<rparr>) ys)"
    by simp
  then have "map schema_of xs = map schema_of ys"
    by (simp add: schema_of_val comp_def)
  then show "getSchema xs = getSchema ys"
    by (rule getSchema_cong)
next
  fix i
  assume a: "i < length xs \<and> i < length ys \<and>
      (path (xs ! i) \<noteq> path (ys ! i) \<or> operation (xs ! i) \<noteq> operation (ys ! i)
        \<or> observable (xs ! i) \<noteq> observable (ys ! i))"
  show "getSchema xs \<noteq> getSchema ys"
  proof
    assume "getSchema xs = getSchema ys"
    then have "map schema_of xs = map schema_of ys"
      by (rule getSchema_inj)
    then have "map schema_of xs ! i = map schema_of ys ! i"
      by simp
    with a have "schema_of (xs ! i) = schema_of (ys ! i)"
      by simp
    with a show False
      by (simp add: schema_of_def)
  qed
qed

theorem schema_fingerprint_witness:
  "getSchema [temp_rule [''GET''] ''21''] = getSchema [temp_rule [''GET''] ''22''] \<and>
   getSchema [temp_rule [''GET''] ''21''] \<noteq> getSchema [temp_rule [''GET'', ''PUT''] ''21'']"
proof
  have "map (\<lambda>d. d\<lparr>val := []\<rparr>) [temp_rule [''GET''] ''21'']
      = map (\<lambda>d. d\<lparr>val := []\<rparr>) [temp_rule [''GET''] ''22'']"
    by (simp add: temp_rule_def)
  with schema_fingerprint [of "[temp_rule [''GET''] ''21'']" "[temp_rule [''GET''] ''22'']"]
  show "getSchema [temp_rule [''GET''] ''21''] = getSchema [temp_rule [''GET''] ''22'']"
    by (rule conjunct1 [THEN mp])
next
  let ?xs = "[temp_rule [''GET''] ''21'']" and ?ys = "[temp_rule [''GET'', ''PUT''] ''21'']"
  have "0 < length ?xs \<and> 0 < length ?ys \<and>
      (path (?xs ! 0) \<noteq> path (?ys ! 0) \<or> operation (?xs ! 0) \<noteq> operation (?ys ! 0)
        \<or> observable (?xs ! 0) \<noteq> observable (?ys ! 0))"
    by (simp add: temp_rule_def)
  with schema_fingerprint [of ?xs ?ys, THEN conjunct2, THEN spec, of 0]
  show "getSchema ?xs \<noteq> getSchema ?ys"
    by (rule mp)
qed

subsection \<open>The descriptor list\<close>

lemma indexOf_ge: "- 1 \<le> indexOf xs v"
  by (induction xs) (auto simp: Let_def)

lemma indexOf_absent: "indexOf xs v = - 1 \<longleftrightarrow> v \<notin> set xs"
proof (induction xs)
  case Nil
  then show ?case by simp
next
  case (Cons x xs)
  have "- 1 \<le> indexOf xs v" by (rule indexOf_ge)
  with Cons show ?case by (auto simp: Let_def)
qed

lemma indexOf_present: "indexOf xs v > - 1 \<longleftrightarrow> v \<in> set xs"
  using indexOf_ge [of xs v] indexOf_absent [of xs v] by linarith

lemma indexOf_append_self: "indexOf (pre @ x # xs) x = int (length pre) \<longleftrightarrow> x \<notin> set pre"
proof (induction pre)
  case Nil
  then show ?case by simp
next
  case (Cons p pre)
  have "indexOf (pre @ x # xs) x \<noteq> - 1"
    by (simp add: indexOf_absent)
  with Cons show ?case by (auto simp: Let_def)
qed

lemma first_occurrences_from:
  "map snd (filter (\<lambda>(i, v). indexOf (pre @ xs) v = int i) (enumerate (length pre) xs))
     = filter (\<lambda>y. y \<notin> set pre) (first_seen xs)"
proof (induction xs arbitrary: pre)
  case Nil
  then show ?case by simp
next
  case (Cons x xs)
  have "map snd (filter (\<lambda>(i, v). indexOf ((pre @ [x]) @ xs) v = int i)
          (enumerate (length (pre @ [x])) xs))
      = filter (\<lambda>y. y \<notin> set (pre @ [x])) (first_seen xs)"
    by (rule Cons.IH)
  then have tl: "map snd (filter (\<lambda>(i, v). indexOf (pre @ x # xs) v = int i)
          (enumerate (Suc (length pre)) xs))
      = filter (\<lambda>y. y \<notin> set pre \<and> y \<noteq> x) (first_seen xs)"
    by (simp add: conj_commute)
  have "filter (\<lambda>y. y \<notin> set pre) (filter (\<lambda>y. y \<noteq> x) (first_seen xs))
      = filter (\<lambda>y. y \<notin> set pre \<and> y \<noteq> x) (first_seen xs)"
    by (simp add: conj_commute)
  with tl show ?case
    by (simp add: indexOf_append_self)
qed

lemma first_occurrences_first_seen: "first_occurrences a = first_seen a"
  using first_occurrences_from [of "[]" a] by (simp add: first_occurrences_def)

lemma set_first_seen: "set (first_seen xs) = set xs"
  by (induction xs) auto

lemma distinct_first_seen: "distinct (first_seen xs)"
  by (induction xs) (auto simp: set_first_seen)

lemma path_lwm2m_rule: "path (lwm2m_rule d res s rk wk k) = CHR ''/'' # k"
  by (simp add: lwm2m_rule_def Let_def)

lemma find_path_map:
  assumes "\<And>k. path (f k) = CHR ''/'' # k" and "k \<in> set ks"
  shows "find (\<lambda>d. path d = CHR ''/'' # k) (map f ks) = Some (f k)"
  using assms(2) by (induction ks) (auto simp: assms(1))

lemma generateLwm2mModel_eq:
  "write' (cloudDefinition this) = Some w \<Longrightarrow>
   generateLwm2mModel this res snap =
     Inr (map (lwm2m_rule (cloudDefinition this) res (createSimplifiedModel snap)
                (map fst (read (cloudDefinition this))) (map fst w))
           (first_seen (map fst (read (cloudDefinition this)) @ map fst w)))"
  by (simp add: generateLwm2mModel_def Let_def first_occurrences_first_seen)

lemma val_lwm2m_rule_fallback:
  assumes "map_of (read d) k = None \<or> (\<exists>f ex. map_of (read d) k = Some f \<and> f s = Inl ex)"
  shows "val (lwm2m_rule d res s (map fst (read d)) wk k)
     = (case map_of res (CHR ''/'' # k) of Some r \<Rightarrow> val r | None \<Rightarrow> [])"
proof -
  have rk: "k \<in> set (map fst (read d)) \<longleftrightarrow> map_of (read d) k \<noteq> None"
    by (simp add: map_of_eq_None_iff)
  from assms show ?thesis
  proof
    assume "map_of (read d) k = None"
    with rk show ?thesis
      by (simp add: lwm2m_rule_def Let_def indexOf_present split: option.splits)
  next
    assume "\<exists>f ex. map_of (read d) k = Some f \<and> f s = Inl ex"
    then obtain f ex where "map_of (read d) k = Some f" "f s = Inl ex" by blast
    with rk show ?thesis
      by (simp add: lwm2m_rule_def Let_def indexOf_present split: option.splits)
  qed
qed

text \<open>
  C6 (amended). With the write mapping present, the descriptor list has one descriptor
  per key of the read and write mappings, deduplicated in first-seen order (read keys
  first): path "/" + key, operation GET iff the key has a reader followed by PUT iff it has
  a writer, observable true iff it has a reader and absent otherwise. The reader sees the
  simplified snapshot, where a characteristic is already its value: with the snapshot
  {svc:{c1:{value:21}}} and no /temp resource held remotely, the reader
  snap => snap.svc.c1 yields the descriptor with value "21", and the reader
  snap => snap.svc.c1.value yields the descriptor with the empty value.
\<close>

theorem generateLwm2mModel_descriptors:
  assumes "write' (cloudDefinition this) = Some w"
  shows "(\<exists>ds. generateLwm2mModel this res snap = Inr ds \<and>
            map (\<lambda>d. d\<lparr>val := []\<rparr>) ds =
              map (\<lambda>k. \<lparr>path = CHR ''/'' # k, valueType = ''dynamic'',
                         operation =
                           (if k \<in> set (map fst (read (cloudDefinition this))) then [''GET''] else [])
                           @ (if k \<in> set (map fst w) then [''PUT''] else []),
                         val = [],
                         observable =
                           (if k \<in> set (map fst (read (cloudDefinition this))) then Some True
                            else None)\<rparr>)
                (first_seen (map fst (read (cloudDefinition this)) @ map fst w)))
       \<and> generateLwm2mModel temp_device [] snap_c1 = Inr [temp_rule [''GET''] ''21'']
       \<and> generateLwm2mModel temp_value_device [] snap_c1 = Inr [temp_rule [''GET''] []]"
proof (intro conjI)
  show "\<exists>ds. generateLwm2mModel this res snap = Inr ds \<and>
            map (\<lambda>d. d\<lparr>val := []\<rparr>) ds =
              map (\<lambda>k. \<lparr>path = CHR ''/'' # k, valueType = ''dynamic'',
                         operation =
                           (if k \<in> set (map fst (read (cloudDefinition this))) then [''GET''] else [])
                           @ (if k \<in> set (map fst w) then [''PUT''] else []),
                         val = [],
                         observable =
                           (if k \<in> set (map fst (read (cloudDefinition this))) then Some True
                            else None)\<rparr>)
                (first_seen (map fst (read (cloudDefinition this)) @ map fst w))"
    unfolding generateLwm2mModel_eq [OF assms]
    by (simp add: lwm2m_rule_def Let_def indexOf_present comp_def)
  show "generateLwm2mModel temp_device [] snap_c1 = Inr [temp_rule [''GET''] ''21'']"
    by code_simp
  show "generateLwm2mModel temp_value_device [] snap_c1 = Inr [temp_rule [''GET''] []]"
    by code_simp
qed

theorem generateLwm2mModel_descriptors_witness:
  "\<exists>ds. generateLwm2mModel rw_device [] snap21 = Inr ds \<and>
     map (\<lambda>d. d\<lparr>val := []\<rparr>) ds =
       [\<lparr>path = ''/temp'', valueType = ''dynamic'', operation = [''GET''], val = [],
          observable = Some True\<rparr>,
        \<lparr>path = ''/led'', valueType = ''dynamic'', operation = [''GET'', ''PUT''], val = [],
          observable = Some True\<rparr>,
        \<lparr>path = ''/name'', valueType = ''dynamic'', operation = [''PUT''], val = [],
          observable = None\<rparr>]"
proof -
  have w: "write' (cloudDefinition rw_device) = Some [(''led'', led_writer), (''name'', led_writer)]"
    by (simp add: rw_device_def rw_definition_def BtDeviceLinkDevice_def)
  have r: "read (cloudDefinition rw_device) = [(''temp'', read_svc_c1), (''led'', read_svc_c2)]"
    by (simp add: rw_device_def rw_definition_def BtDeviceLinkDevice_def)
  from generateLwm2mModel_descriptors [OF w, of "[]" snap21, THEN conjunct1]
  show ?thesis
    unfolding r by simp
qed

theorem descriptor_example_counterexample:
  "\<exists>ds. generateLwm2mModel temp_value_device [] snap_c1 = Inr ds \<and> map val ds = [[]]
     \<and> map val ds \<noteq> [''21'']"
proof -
  have "generateLwm2mModel temp_value_device [] snap_c1 = Inr [temp_rule [''GET''] []]"
    by code_simp
  then show ?thesis
    by (simp add: temp_rule_def)
qed

text \<open>
  C7. With the write mapping present, a key whose reader throws, or that has no reader,
  does not abort the build: the list has a descriptor for every key, and the descriptor of
  that key's path carries the value the remote service holds for the path when it has such
  a resource, and the empty string otherwise.
\<close>

theorem reader_failure_falls_back:
  assumes "write' (cloudDefinition this) = Some w"
    and "k \<in> set (map fst (read (cloudDefinition this)) @ map fst w)"
    and "map_of (read (cloudDefinition this)) k = None
       \<or> (\<exists>f ex. map_of (read (cloudDefinition this)) k = Some f
              \<and> f (createSimplifiedModel snap) = Inl ex)"
  shows "\<exists>ds d. generateLwm2mModel this res snap = Inr ds
     \<and> length ds = length (first_seen (map fst (read (cloudDefinition this)) @ map fst w))
     \<and> find (\<lambda>d. path d = CHR ''/'' # k) ds = Some d
     \<and> val d = (case map_of res (CHR ''/'' # k) of Some r \<Rightarrow> val r | None \<Rightarrow> [])"
proof -
  let ?f = "lwm2m_rule (cloudDefinition this) res (createSimplifiedModel snap)
              (map fst (read (cloudDefinition this))) (map fst w)"
  let ?ks = "first_seen (map fst (read (cloudDefinition this)) @ map fst w)"
  have g: "generateLwm2mModel this res snap = Inr (map ?f ?ks)"
    by (rule generateLwm2mModel_eq [OF assms(1)])
  from assms(2) have "k \<in> set ?ks"
    by (simp only: set_first_seen)
  then have "find (\<lambda>d. path d = CHR ''/'' # k) (map ?f ?ks) = Some (?f k)"
    by (intro find_path_map) (simp_all add: path_lwm2m_rule)
  moreover have "val (?f k) = (case map_of res (CHR ''/'' # k) of Some r \<Rightarrow> val r | None \<Rightarrow> [])"
    by (rule val_lwm2m_rule_fallback [OF assms(3)])
  ultimately show ?thesis
    using g by simp
qed

theorem reader_failure_falls_back_witness:
  "(\<exists>ds d. generateLwm2mModel temp_device two_resources [] = Inr ds \<and> length ds = 1
      \<and> find (\<lambda>d. path d = ''/temp'') ds = Some d \<and> val d = ''20'')
   \<and> (\<exists>ds d. generateLwm2mModel rw_device two_resources snap21 = Inr ds \<and> length ds = 3
      \<and> find (\<lambda>d. path d = ''/name'') ds = Some d \<and> val d = [])"
proof
  have w: "write' (cloudDefinition temp_device) = Some []"
    and r: "read (cloudDefinition temp_device) = [(''temp'', read_svc_c1)]"
    by (simp_all add: temp_device_def temp_definition_def BtDeviceLinkDevice_def)
  have k: "''temp'' \<in> set (map fst (read (cloudDefinition temp_device)) @ map fst [])"
    by (simp add: r)
  have t: "map_of (read (cloudDefinition temp_device)) ''temp'' = None
       \<or> (\<exists>f ex. map_of (read (cloudDefinition temp_device)) ''temp'' = Some f
              \<and> f (createSimplifiedModel []) = Inl ex)"
    by (simp add: r read_svc_c1_def createSimplifiedModel_def)
  from reader_failure_falls_back [OF w k t, of two_resources]
  show "\<exists>ds d. generateLwm2mModel temp_device two_resources [] = Inr ds \<and> length ds = 1
      \<and> find (\<lambda>d. path d = ''/temp'') ds = Some d \<and> val d = ''20''"
    by (simp add: r two_resources_def)
next
  have w: "write' (cloudDefinition rw_device) = Some [(''led'', led_writer), (''name'', led_writer)]"
    and r: "read (cloudDefinition rw_device) = [(''temp'', read_svc_c1), (''led'', read_svc_c2)]"
    by (simp_all add: rw_device_def rw_definition_def BtDeviceLinkDevice_def)
  have k: "''name'' \<in> set (map fst (read (cloudDefinition rw_device))
      @ map fst [(''led'', led_writer), (''name'', led_writer)])"
    by (simp add: r)
  have t: "map_of (read (cloudDefinition rw_device)) ''name'' = None
       \<or> (\<exists>f ex. map_of (read (cloudDefinition rw_device)) ''name'' = Some f
              \<and> f (createSimplifiedModel snap21) = Inl ex)"
    by (simp add: r)
  from reader_failure_falls_back [OF w k t, of two_resources]
  show "\<exists>ds d. generateLwm2mModel rw_device two_resources snap21 = Inr ds \<and> length ds = 3
      \<and> find (\<lambda>d. path d = ''/name'') ds = Some d \<and> val d = []"
    by (simp add: r two_resources_def numeral_3_eq_3)
qed

subsection \<open>Reconciliation, connectivity and remote writes\<close>

lemma values_loop_frame:
  "values_loop this res cur old rules = (this', evs, st) \<Longrightarrow>
     registered this' = registered this \<and> reconciling st \<and> calls evs = []"
  by (induction rules)
    (auto simp: model_update_failed_def Let_def split: if_splits option.splits)

lemma resume_frame:
  "is_reconciling p \<Longrightarrow> resume this res p ok = (this', evs, st) \<Longrightarrow>
     registered this' = registered this \<and> reconciling st \<and> calls evs = []"
  by (cases p)
    (auto simp: model_update_failed_def split: if_splits prod.splits dest: values_loop_frame)

lemma run_registered:
  "reconciling st \<Longrightarrow> registered (fst (run svc this r st)) = registered this"
proof (induction svc this r st rule: run.induct)
  case (1 svc this r)
  then show ?case by simp
next
  case (2 svc this r ex)
  then show ?case by simp
next
  case (3 svc this r p)
  obtain ok r' where p: "perform svc (awaited p) r = (ok, r')"
    by (cases "perform svc (awaited p) r")
  obtain this' evs st where s: "resume this (resources svc r') p ok = (this', evs, st)"
    by (cases "resume this (resources svc r') p ok")
  from "3.prems" have "is_reconciling p" by simp
  from resume_frame [OF this s] have f: "registered this' = registered this" "reconciling st"
    by simp_all
  have "registered (fst (run svc this' r' st)) = registered this'"
    using "3.IH" [OF p [symmetric] s [symmetric] refl f(2)] .
  with f p s show ?case
    by (cases "run svc this' r' st") simp
qed

lemma bleModelUpdated_frame:
  "bleModelUpdated this res snap = (this', evs, st) \<Longrightarrow>
     registered this' = registered this \<and> reconciling st \<and> calls evs = []"
  by (auto simp: bleModelUpdated_def Let_def split: sum.splits if_splits prod.splits
      dest: values_loop_frame)

text \<open>
  C10. Reconciling a snapshot never writes the registered flag. The handler up to its
  first await, and every continuation of a reconciliation after an await, leave the flag as
  they find it, whether the awaited call resolved or rejected; so after every execution of
  the snapshot-update handler, whatever the remote calls do, the flag is what it was.
\<close>

theorem reconcile_keeps_registered:
  "registered (fst (bleModelUpdated this res snap)) = registered this
   \<and> (\<forall>p ok. is_reconciling p \<longrightarrow> registered (fst (resume this res p ok)) = registered this)
   \<and> registered (fst (reconcile svc this r snap)) = registered this"
proof (intro conjI allI impI)
  show "registered (fst (bleModelUpdated this res snap)) = registered this"
    using bleModelUpdated_frame [of this res snap]
    by (cases "bleModelUpdated this res snap") simp
next
  fix p ok
  assume "is_reconciling p"
  then show "registered (fst (resume this res p ok)) = registered this"
    using resume_frame [of p this res ok]
    by (cases "resume this res p ok") simp
next
  obtain this' evs st where b: "bleModelUpdated this (resources svc r) snap = (this', evs, st)"
    by (cases "bleModelUpdated this (resources svc r) snap")
  from bleModelUpdated_frame [OF b] have "registered this' = registered this" "reconciling st"
    by simp_all
  with run_registered [of st svc this' r] b
  show "registered (fst (reconcile svc this r snap)) = registered this"
    by (cases "run svc this' r st") (simp add: reconcile_def)
qed

theorem reconcile_keeps_registered_witness:
  "registered (fst (reconcile scripted registered_temp_device ([], [True, True, False]) snap_c1))
   \<and> map snd (calls (snd (snd (reconcile scripted registered_temp_device
        ([], [True, True, False]) snap_c1)))) = [True, True, False]"
proof
  have "registered registered_temp_device"
    by (simp add: registered_temp_device_def)
  with reconcile_keeps_registered [of registered_temp_device _ snap_c1 scripted
      "([], [True, True, False])"]
  show "registered (fst (reconcile scripted registered_temp_device ([], [True, True, False]) snap_c1))"
    by simp
  show "map snd (calls (snd (snd (reconcile scripted registered_temp_device
        ([], [True, True, False]) snap_c1)))) = [True, True, False]"
    by code_simp
qed

lemma read_property_Missing:
  "read_property obj k = Missing \<longleftrightarrow> map_of obj k = None \<and> k \<notin> set object_prototype_names"
  by (simp add: read_property_def split: option.splits)

text \<open>Where the guard of \<^verbatim>\<open>onPut\<close> does what its log line says.\<close>

lemma onPut_no_rule:
  assumes "\<forall>w. write' (cloudDefinition this) = Some w \<longrightarrow> read_property w (drop 1 p) = Missing"
  shows "onPut this p v = (this, [Log (LNoWriteRule p)], Done)"
  using assms by (cases "write' (cloudDefinition this)") (simp_all add: onPut_def)

lemma onPut_no_rule_example:
  "onPut temp_device ''/temp'' ''5'' = (temp_device, [Log (LNoWriteRule ''/temp'')], Done)"
  by (simp add: onPut_def temp_device_def temp_definition_def BtDeviceLinkDevice_def
      read_property_def object_prototype_names_def)

lemma onPut_with_writer_example:
  "onPut (rw_device\<lparr>bleModel := snap21\<rparr>) ''/led'' ''1''
     = (rw_device\<lparr>bleModel := snap21\<rparr>,
        [Log (LWriteFromCloud ''/led'' ''1''), WriterCalled ''led'' ''1'',
         Log (LWritingToChar ''svc/c1'' [1]), CharWrite 1 [1]],
        Done)"
  by (simp add: onPut_def rw_device_def rw_definition_def BtDeviceLinkDevice_def
      led_writer_def write_char_def snap21_def Let_def read_property_def
      object_prototype_names_def)

text \<open>
  C9. A remote write whose key (the path without its first character) has no entry in the
  write mapping is to be ignored: one line logged, no writer and no characteristic write
  invoked, no error. The code does so unless the key names a member that every object
  inherits. With the empty write mapping, a write to /__proto__ passes the guard, is logged
  as a write from the cloud, and throws a TypeError out of the handler; a write to
  /toString passes the guard too, and the inherited function is called in the place of a
  writer. Neither logs that there is no write rule.
\<close>

theorem onPut_inherited_key:
  "write' (cloudDefinition temp_device) = Some []
   \<and> onPut temp_device ''/__proto__'' ''5''
       = (temp_device, [Log (LWriteFromCloud ''/__proto__'' ''5'')], Raised TypeError)
   \<and> onPut temp_device ''/toString'' ''5''
       = (temp_device, [Log (LWriteFromCloud ''/toString'' ''5'')], Builtin ''toString'')"
  by (simp add: onPut_def temp_device_def temp_definition_def BtDeviceLinkDevice_def
      read_property_def object_prototype_names_def)

text \<open>
  C8. On the transition to "disconnected" a device that is not registered calls nothing;
  a registered device calls deregister() exactly once, and whether that call resolves or
  rejects the registered flag is false afterwards.
\<close>

theorem disconnect_deregisters_once:
  "calls (snd (snd (statechange svc this r ''disconnected''))) =
     (if registered this then [(Deregister, fst (perform svc Deregister r))] else [])
   \<and> \<not> registered (fst (statechange svc this r ''disconnected''))"
  by (simp add: statechange_def on_statechange_def split: prod.splits)

theorem disconnect_deregisters_once_witness:
  "calls (snd (snd (statechange scripted registered_temp_device ([], [False]) ''disconnected'')))
     = [(Deregister, False)]
   \<and> \<not> registered (fst (statechange scripted registered_temp_device ([], [False]) ''disconnected''))"
proof -
  have "registered registered_temp_device"
    by (simp add: registered_temp_device_def)
  moreover have "fst (perform scripted Deregister ([], [False])) = False"
    by (simp add: scripted_def)
  ultimately show ?thesis
    using disconnect_deregisters_once [of scripted registered_temp_device "([], [False])"]
    by simp
qed

text \<open>
  C3. When no reconciliation is in flight, the device is registered and the fingerprint
  of the new descriptor list differs from that of the resources the remote service exposes,
  the remote calls are setResourceModel(current), then deregister(), then register(), each
  issued after the one before has resolved; the first call that rejects ends the sequence;
  no other remote call is made; and the registered flag is still set at the end.
\<close>

theorem schema_change_sequence:
  assumes "\<not> modelUpdateInProgress this" and "registered this"
    and "generateLwm2mModel this (resources svc r) snap = Inr cur"
    and "getSchema cur \<noteq> getSchema (map snd (resources svc r))"
    and "perform svc (SetResourceModel cur) r = (ok1, r1)"
    and "perform svc Deregister r1 = (ok2, r2)"
    and "perform svc Register r2 = (ok3, r3)"
  shows "\<exists>this' r' evs. reconcile svc this r snap = (this', r', evs)
     \<and> calls evs =
         (if \<not> ok1 then [(SetResourceModel cur, False)]
          else if \<not> ok2 then [(SetResourceModel cur, True), (Deregister, False)]
          else [(SetResourceModel cur, True), (Deregister, True), (Register, ok3)])
     \<and> registered this' \<and> \<not> modelUpdateInProgress this' \<and> model this' = cur"
proof -
  have b: "bleModelUpdated this (resources svc r) snap =
      (this\<lparr>bleModel := snap, modelUpdateInProgress := True\<rparr>,
       [Emit ''ble-model-updated'', Log (LSchemaChangeTo cur), Log LSetResourceModel],
       Suspended (AwaitSetResourceModel cur))"
    using assms(1-4) by (simp add: bleModelUpdated_def Let_def)
  show ?thesis
    unfolding reconcile_def b
    using assms(2,5-7)
    by (cases ok1; cases ok2; cases ok3) (simp_all add: model_update_failed_def)
qed

theorem schema_change_sequence_witness:
  "\<exists>this' r' evs.
     reconcile scripted registered_temp_device ([], [True, True, True]) snap_c1 = (this', r', evs)
     \<and> calls evs = [(SetResourceModel [temp_rule [''GET''] ''21''], True), (Deregister, True),
          (Register, True)]
     \<and> registered this' \<and> \<not> modelUpdateInProgress this'
     \<and> model this' = [temp_rule [''GET''] ''21'']"
proof -
  let ?r = "([], [True, True, True]) :: resources \<times> bool list"
  let ?cur = "[temp_rule [''GET''] ''21'']"
  have 1: "\<not> modelUpdateInProgress registered_temp_device"
    and 2: "registered registered_temp_device"
    by (simp_all add: registered_temp_device_def temp_device_def BtDeviceLinkDevice_def)
  have 3: "generateLwm2mModel registered_temp_device (resources scripted ?r) snap_c1 = Inr ?cur"
    by code_simp
  have 4: "getSchema ?cur \<noteq> getSchema (map snd (resources scripted ?r))"
    by code_simp
  have 5: "perform scripted (SetResourceModel ?cur) ?r
      = (True, (effect (SetResourceModel ?cur) [], [True, True]))"
    by (simp add: scripted_def)
  have 6: "perform scripted Deregister (effect (SetResourceModel ?cur) [], [True, True])
      = (True, (effect (SetResourceModel ?cur) [], [True]))"
    by (simp add: scripted_def)
  have 7: "perform scripted Register (effect (SetResourceModel ?cur) [], [True])
      = (True, (effect (SetResourceModel ?cur) [], []))"
    by (simp add: scripted_def)
  from schema_change_sequence [OF 1 2 3 4 5 6 7] show ?thesis
    by simp
qed

subsection \<open>A dropped snapshot leaves no trace in the reconciliation in flight\<close>

lemma values_loop_overwritten:
  "values_loop (this\<lparr>bleModel := b, model := m\<rparr>) res cur old rules =
     (case values_loop this res cur old rules of
        (t, evs, st) \<Rightarrow>
          ((case st of Suspended p \<Rightarrow> t\<lparr>bleModel := b, model := m\<rparr> | _ \<Rightarrow> t\<lparr>bleModel := b\<rparr>),
           evs, st))"
  by (induction rules)
    (auto simp: model_update_failed_def Let_def split: option.splits)

lemma resume_overwritten:
  "is_reconciling p \<Longrightarrow>
   resume (this\<lparr>bleModel := b, model := m\<rparr>) res p ok =
     (case resume this res p ok of
        (t, evs, st) \<Rightarrow>
          ((case st of Suspended p \<Rightarrow> t\<lparr>bleModel := b, model := m\<rparr> | _ \<Rightarrow> t\<lparr>bleModel := b\<rparr>),
           evs, st))"
  by (cases p)
    (auto simp: model_update_failed_def values_loop_overwritten split: prod.splits)

lemma run_overwritten:
  "is_reconciling p \<Longrightarrow>
   run svc (this\<lparr>bleModel := b, model := m\<rparr>) r (Suspended p) =
     (case run svc this r (Suspended p) of (t, r', evs) \<Rightarrow> (t\<lparr>bleModel := b\<rparr>, r', evs))"
proof (induction "calls_left (Suspended p)" arbitrary: p this r rule: less_induct)
  case less
  obtain ok r' where p: "perform svc (awaited p) r = (ok, r')"
    by (cases "perform svc (awaited p) r")
  obtain t evs st where s: "resume this (resources svc r') p ok = (t, evs, st)"
    by (cases "resume this (resources svc r') p ok")
  from resume_frame [OF less.prems s] have rec: "reconciling st"
    by simp
  from resume_overwritten [OF less.prems, where this = this and b = b and m = m
      and res = "resources svc r'" and ok = ok] s
  have s': "resume (this\<lparr>bleModel := b, model := m\<rparr>) (resources svc r') p ok =
      ((case st of Suspended p \<Rightarrow> t\<lparr>bleModel := b, model := m\<rparr> | _ \<Rightarrow> t\<lparr>bleModel := b\<rparr>),
       evs, st)"
    by simp
  show ?case
  proof (cases st)
    case Returned
    with p s s' show ?thesis by simp
  next
    case (Threw ex)
    with p s s' show ?thesis by simp
  next
    case (Suspended q)
    from resume_calls_left [OF s] Suspended
    have "calls_left (Suspended q) < calls_left (Suspended p)"
      by simp
    moreover from rec Suspended have "is_reconciling q"
      by simp
    ultimately have "run svc (t\<lparr>bleModel := b, model := m\<rparr>) r' (Suspended q) =
        (case run svc t r' (Suspended q) of (t', r'', evs') \<Rightarrow> (t'\<lparr>bleModel := b\<rparr>, r'', evs'))"
      by (rule less.hyps)
    with p s s' Suspended show ?thesis
      by (cases "run svc t r' (Suspended q)") simp
  qed
qed

text \<open>
  C1. While the in-flight flag is set a newly arriving snapshot is dropped. The handler
  returns at once, awaiting no remote call and leaving nothing pending, so the invocation
  makes no remote call and the remote service is untouched; the in-flight flag stays set.
  The dropped snapshot's descriptors are written to the device object, but they are lost:
  whichever reconciliation is in flight, its completion makes the same remote calls and
  ends in the same device state as without the dropped snapshot, the last observed
  snapshot apart.
\<close>

theorem in_flight_snapshot_dropped:
  assumes "modelUpdateInProgress this"
  shows "(case generateLwm2mModel this (resources svc r) snap of
            Inl ex \<Rightarrow>
              bleModelUpdated this (resources svc r) snap
                = (this, [Emit ''ble-model-updated''], Threw ex)
          | Inr cur \<Rightarrow>
              bleModelUpdated this (resources svc r) snap
                = (this\<lparr>bleModel := snap, model := cur\<rparr>,
                   [Emit ''ble-model-updated'', Log LAlreadyUpdating], Returned))
     \<and> calls (snd (snd (reconcile svc this r snap))) = []
     \<and> fst (snd (reconcile svc this r snap)) = r
     \<and> modelUpdateInProgress (fst (reconcile svc this r snap))
     \<and> (\<forall>p cur. is_reconciling p \<longrightarrow>
           run svc (this\<lparr>bleModel := snap, model := cur\<rparr>) r (Suspended p) =
             (case run svc this r (Suspended p) of
                (t, r', evs) \<Rightarrow> (t\<lparr>bleModel := snap\<rparr>, r', evs)))"
proof (intro conjI allI impI)
  show "case generateLwm2mModel this (resources svc r) snap of
            Inl ex \<Rightarrow>
              bleModelUpdated this (resources svc r) snap
                = (this, [Emit ''ble-model-updated''], Threw ex)
          | Inr cur \<Rightarrow>
              bleModelUpdated this (resources svc r) snap
                = (this\<lparr>bleModel := snap, model := cur\<rparr>,
                   [Emit ''ble-model-updated'', Log LAlreadyUpdating], Returned)"
    using assms by (simp add: bleModelUpdated_def Let_def split: sum.splits)
  show "calls (snd (snd (reconcile svc this r snap))) = []"
    using assms by (simp add: reconcile_def bleModelUpdated_def Let_def split: sum.splits)
  show "fst (snd (reconcile svc this r snap)) = r"
    using assms by (simp add: reconcile_def bleModelUpdated_def Let_def split: sum.splits)
  show "modelUpdateInProgress (fst (reconcile svc this r snap))"
    using assms by (simp add: reconcile_def bleModelUpdated_def Let_def split: sum.splits)
next
  fix p cur
  assume "is_reconciling p"
  then show "run svc (this\<lparr>bleModel := snap, model := cur\<rparr>) r (Suspended p) =
             (case run svc this r (Suspended p) of
                (t, r', evs) \<Rightarrow> (t\<lparr>bleModel := snap\<rparr>, r', evs))"
    by (rule run_overwritten)
qed


theorem in_flight_snapshot_dropped_witness:
  "modelUpdateInProgress in_flight_device
   \<and> calls (snd (snd (reconcile scripted in_flight_device ([], []) snap22))) = []
   \<and> model (fst (reconcile scripted in_flight_device ([], []) snap22)) = [temp_rule [''GET''] ''22'']
   \<and> model (fst (run scripted (fst (reconcile scripted in_flight_device ([], []) snap22)) ([], [])
        (snd (snd (bleModelUpdated registered_temp_device [] snap_c1)))))
      = [temp_rule [''GET''] ''21'']"
proof (intro conjI)
  show h: "modelUpdateInProgress in_flight_device"
    by code_simp
  from in_flight_snapshot_dropped [OF h, of scripted "([], [])" snap22]
  show "calls (snd (snd (reconcile scripted in_flight_device ([], []) snap22))) = []"
    by simp
  show "model (fst (reconcile scripted in_flight_device ([], []) snap22)) = [temp_rule [''GET''] ''22'']"
    by code_simp
  show "model (fst (run scripted (fst (reconcile scripted in_flight_device ([], []) snap22)) ([], [])
        (snd (snd (bleModelUpdated registered_temp_device [] snap_c1)))))
      = [temp_rule [''GET''] ''21'']"
    by code_simp
qed

subsection \<open>The value-update phase\<close>

lemma calls_append: "calls (xs @ ys) = calls xs @ calls ys"
  by (induction xs rule: calls.induct) simp_all

lemma run_values_loop:
  assumes "values_loop this (resources svc r) cur old rules = (t, e, st)"
    and "run svc t r st = (t', r', e')"
  shows "\<exists>ds. subseq ds rules
     \<and> map fst (calls e') = map (\<lambda>d. SetValue (path d) (val d)) ds
     \<and> (list_all snd (calls e')
        \<or> (\<exists>c. suffix [Remote c False, Log LModelUpdateFailed] e'
              \<and> list_all snd (butlast (calls e'))))"
  using assms
proof (induction rules arbitrary: this r t e st t' r' e')
  case Nil
  then show ?case by auto
next
  case (Cons rule rest)
  let ?old = "(case find (\<lambda>r. path r = path rule) old of
                 None \<Rightarrow> (case map_of (resources svc r) (path rule) of
                            Some r \<Rightarrow> Some (val r) | None \<Rightarrow> None)
               | Some r \<Rightarrow> Some (val r))"
  show ?case
  proof (cases "Some (val rule) \<noteq> ?old \<and> registered this")
    case False
    with Cons.prems(1) have "values_loop this (resources svc r) cur old rest = (t, e, st)"
      by (simp add: Let_def)
    from Cons.IH [OF this Cons.prems(2)] show ?thesis
      by (auto intro: list_emb_Cons)
  next
    case changed: True
    show ?thesis
    proof (cases "map_of (resources svc r) (path rule)")
      case None
      with changed Cons.prems have "e' = []"
        by (auto simp: Let_def model_update_failed_def)
      then show ?thesis by auto
    next
      case (Some res_rule)
      with changed Cons.prems(1)
      have st: "st = Suspended (AwaitSetValue cur old rule rest)" and t: "t = this"
        by (auto simp: Let_def)
      obtain ok r1 where p: "perform svc (SetValue (path rule) (val rule)) r = (ok, r1)"
        by (cases "perform svc (SetValue (path rule) (val rule)) r")
      show ?thesis
      proof (cases ok)
        case False
        with Cons.prems(2) st t p
        have "e' = [Remote (SetValue (path rule) (val rule)) False, Log LModelUpdateFailed]"
          by (auto simp: model_update_failed_def)
        then have "subseq [rule] (rule # rest)
            \<and> map fst (calls e') = map (\<lambda>d. SetValue (path d) (val d)) [rule]
            \<and> suffix [Remote (SetValue (path rule) (val rule)) False, Log LModelUpdateFailed] e'
            \<and> list_all snd (butlast (calls e'))"
          by simp
        then show ?thesis by blast
      next
        case True
        obtain t1 e1 st1
          where v: "values_loop this (resources svc r1) cur old rest = (t1, e1, st1)"
          by (cases "values_loop this (resources svc r1) cur old rest")
        obtain t2 r2 e2 where r: "run svc t1 r1 st1 = (t2, r2, e2)"
          by (cases "run svc t1 r1 st1")
        from Cons.prems(2) st t p True v r
        have e': "e' = Remote (SetValue (path rule) (val rule)) True
            # (Log (LOKUpdateValue (path rule) (val rule)) # e1) @ e2"
          by simp
        from values_loop_frame [OF v] have "calls e1 = []"
          by simp
        with e' have c: "calls e' = (SetValue (path rule) (val rule), True) # calls e2"
          by (simp add: calls_append)
        from Cons.IH [OF v r] obtain ds where ds: "subseq ds rest"
          "map fst (calls e2) = map (\<lambda>d. SetValue (path d) (val d)) ds"
          "list_all snd (calls e2)
             \<or> (\<exists>c. suffix [Remote c False, Log LModelUpdateFailed] e2
                   \<and> list_all snd (butlast (calls e2)))"
          by blast
        from ds(3) have "list_all snd (calls e')
             \<or> (\<exists>c. suffix [Remote c False, Log LModelUpdateFailed] e'
                   \<and> list_all snd (butlast (calls e')))"
        proof
          assume "list_all snd (calls e2)"
          with c show ?thesis by simp
        next
          assume "\<exists>c. suffix [Remote c False, Log LModelUpdateFailed] e2
                   \<and> list_all snd (butlast (calls e2))"
          then obtain c' where s: "suffix [Remote c' False, Log LModelUpdateFailed] e2"
            and b: "list_all snd (butlast (calls e2))"
            by blast
          from s have "suffix [Remote c' False, Log LModelUpdateFailed] e'"
            unfolding e' by (auto simp: suffix_def)
          moreover from b c have "list_all snd (butlast (calls e'))"
            by simp
          ultimately show ?thesis by blast
        qed
        moreover from ds(1) have "subseq (rule # ds) (rule # rest)"
          by simp
        moreover from ds(2) c
        have "map fst (calls e') = map (\<lambda>d. SetValue (path d) (val d)) (rule # ds)"
          by simp
        ultimately show ?thesis by blast
      qed
    qed
  qed
qed

lemma changed_iff:
  "changed old res rule \<longleftrightarrow>
     Some (val rule) \<noteq> (case find (\<lambda>r. path r = path rule) old of
                            None \<Rightarrow> (case map_of res (path rule) of
                                       Some r \<Rightarrow> Some (val r) | None \<Rightarrow> None)
                          | Some r \<Rightarrow> Some (val r))"
  by (auto simp: changed_def split: option.splits)

lemma run_values_loop_calls:
  assumes "values_loop this (resources svc r) cur old rules = (t, e, st)"
    and "run svc t r st = (t', r', e')"
  shows "calls e' = changed_pushes svc (registered this) r old rules"
  using assms
proof (induction rules arbitrary: r t e st t' r' e')
  case Nil
  then show ?case by auto
next
  case (Cons rule rest)
  show ?case
  proof (cases "registered this \<and> changed old (resources svc r) rule")
    case False
    with Cons.prems(1) have "values_loop this (resources svc r) cur old rest = (t, e, st)"
      by (auto simp: Let_def changed_iff)
    from Cons.IH [OF this Cons.prems(2)] False show ?thesis
      by auto
  next
    case ch: True
    then have cond: "Some (val rule) \<noteq> (case find (\<lambda>r. path r = path rule) old of
                            None \<Rightarrow> (case map_of (resources svc r) (path rule) of
                                       Some r \<Rightarrow> Some (val r) | None \<Rightarrow> None)
                          | Some r \<Rightarrow> Some (val r)) \<and> registered this"
      by (simp add: changed_iff)
    show ?thesis
    proof (cases "map_of (resources svc r) (path rule)")
      case None
      with cond Cons.prems have "e' = []"
        by (auto simp: Let_def model_update_failed_def)
      with ch None show ?thesis by simp
    next
      case (Some res_rule)
      with cond Cons.prems(1)
      have st: "st = Suspended (AwaitSetValue cur old rule rest)" and t: "t = this"
        by (auto simp: Let_def)
      obtain ok r1 where p: "perform svc (SetValue (path rule) (val rule)) r = (ok, r1)"
        by (cases "perform svc (SetValue (path rule) (val rule)) r")
      show ?thesis
      proof (cases ok)
        case False
        with Cons.prems(2) st t p
        have "e' = [Remote (SetValue (path rule) (val rule)) False, Log LModelUpdateFailed]"
          by (auto simp: model_update_failed_def)
        with ch Some p False show ?thesis by simp
      next
        case True
        obtain t1 e1 st1
          where v: "values_loop this (resources svc r1) cur old rest = (t1, e1, st1)"
          by (cases "values_loop this (resources svc r1) cur old rest")
        obtain t2 r2 e2 where r: "run svc t1 r1 st1 = (t2, r2, e2)"
          by (cases "run svc t1 r1 st1")
        from Cons.prems(2) st t p True v r
        have e': "e' = Remote (SetValue (path rule) (val rule)) True
            # (Log (LOKUpdateValue (path rule) (val rule)) # e1) @ e2"
          by simp
        from values_loop_frame [OF v] have "calls e1 = []"
          by simp
        with e' have "calls e' = (SetValue (path rule) (val rule), True) # calls e2"
          by (simp add: calls_append)
        with Cons.IH [OF v r] ch Some p True show ?thesis
          by simp
      qed
    qed
  qed
qed

text \<open>
  C2 (amended). In the value-update phase the setValue calls are issued one after the
  other in list order, one for each changed entry of the new descriptor list, with that
  entry's path and value, each after the call before it has resolved. A setValue that
  rejects is logged and ends the reconciliation: it is the last remote call, and no setValue
  is issued for the entries after it.
\<close>

theorem value_pushes_in_order:
  assumes "\<not> modelUpdateInProgress this"
    and "generateLwm2mModel this (resources svc r) snap = Inr cur"
    and "getSchema cur = getSchema (map snd (resources svc r)) \<or> \<not> registered this"
  shows "calls (snd (snd (reconcile svc this r snap)))
       = changed_pushes svc (registered this) r (model this) cur
     \<and> (\<exists>ds. subseq ds cur
          \<and> map fst (calls (snd (snd (reconcile svc this r snap))))
              = map (\<lambda>d. SetValue (path d) (val d)) ds
          \<and> (list_all snd (calls (snd (snd (reconcile svc this r snap))))
             \<or> (\<exists>c. suffix [Remote c False, Log LModelUpdateFailed]
                       (snd (snd (reconcile svc this r snap)))
                   \<and> list_all snd (butlast (calls (snd (snd (reconcile svc this r snap))))))))"
proof -
  let ?start = "this\<lparr>bleModel := snap, modelUpdateInProgress := True\<rparr>"
  obtain t e st where v: "values_loop ?start (resources svc r) cur (model this) cur = (t, e, st)"
    by (cases "values_loop ?start (resources svc r) cur (model this) cur")
  obtain t' r' e' where r: "run svc t r st = (t', r', e')"
    by (cases "run svc t r st")
  from assms v have b: "bleModelUpdated this (resources svc r) snap
      = (t, Emit ''ble-model-updated'' # e, st)"
    by (auto simp: bleModelUpdated_def Let_def)
  with r have tr: "snd (snd (reconcile svc this r snap)) = (Emit ''ble-model-updated'' # e) @ e'"
    by (simp add: reconcile_def)
  from values_loop_frame [OF v] have "calls e = []"
    by simp
  then have c: "calls ((Emit ''ble-model-updated'' # e) @ e') = calls e'"
    by (simp add: calls_append)
  from run_values_loop_calls [OF v r]
  have exact: "calls e' = changed_pushes svc (registered this) r (model this) cur"
    by simp
  from run_values_loop [OF v r] obtain ds where ds: "subseq ds cur
    \<and> map fst (calls e') = map (\<lambda>d. SetValue (path d) (val d)) ds
    \<and> (list_all snd (calls e')
       \<or> (\<exists>c. suffix [Remote c False, Log LModelUpdateFailed] e'
             \<and> list_all snd (butlast (calls e'))))" ..
  then have d1: "subseq ds cur"
    and d2: "map fst (calls e') = map (\<lambda>d. SetValue (path d) (val d)) ds"
    and d3: "list_all snd (calls e')
       \<or> (\<exists>c. suffix [Remote c False, Log LModelUpdateFailed] e'
             \<and> list_all snd (butlast (calls e')))"
    by simp_all
  from d3 have "list_all snd (calls e')
       \<or> (\<exists>c. suffix [Remote c False, Log LModelUpdateFailed] ((Emit ''ble-model-updated'' # e) @ e')
             \<and> list_all snd (butlast (calls e')))"
  proof
    assume "list_all snd (calls e')"
    then show ?thesis ..
  next
    assume "\<exists>c. suffix [Remote c False, Log LModelUpdateFailed] e'
             \<and> list_all snd (butlast (calls e'))"
    then obtain c where "suffix [Remote c False, Log LModelUpdateFailed] e'"
      and l: "list_all snd (butlast (calls e'))"
      by (elim exE conjE)
    then have "suffix [Remote c False, Log LModelUpdateFailed] ((Emit ''ble-model-updated'' # e) @ e')"
      by (intro suffix_appendI)
    with l show ?thesis
      by (intro disjI2 exI conjI)
  qed
  with d1 d2 exact show ?thesis
    unfolding tr c by (intro exI conjI)
qed

theorem value_pushes_in_order_witness:
  "calls (snd (snd (reconcile scripted registered_two_device (two_resources, []) snap21)))
     = changed_pushes scripted True (two_resources, []) []
         [temp_rule [''GET''] ''21'',
          \<lparr>path = ''/hum'', valueType = ''dynamic'', operation = [''GET''],
             val = ''7'', observable = Some True\<rparr>]
   \<and> changed_pushes scripted True (two_resources, []) []
         [temp_rule [''GET''] ''21'',
          \<lparr>path = ''/hum'', valueType = ''dynamic'', operation = [''GET''],
             val = ''7'', observable = Some True\<rparr>]
     = [(SetValue ''/temp'' ''21'', True), (SetValue ''/hum'' ''7'', True)]
   \<and> changed_pushes scripted True (two_resources, [False]) []
         [temp_rule [''GET''] ''21'',
          \<lparr>path = ''/hum'', valueType = ''dynamic'', operation = [''GET''],
             val = ''7'', observable = Some True\<rparr>]
     = [(SetValue ''/temp'' ''21'', False)]"
proof (intro conjI)
  let ?r = "(two_resources, []) :: resources \<times> bool list"
  let ?cur = "[temp_rule [''GET''] ''21'',
             \<lparr>path = ''/hum'', valueType = ''dynamic'', operation = [''GET''],
                val = ''7'', observable = Some True\<rparr>]"
  have 1: "\<not> modelUpdateInProgress registered_two_device"
    by (simp add: registered_two_device_def two_device_def BtDeviceLinkDevice_def)
  have 2: "generateLwm2mModel registered_two_device (resources scripted ?r) snap21 = Inr ?cur"
    by code_simp
  have "getSchema ?cur = getSchema (map snd (resources scripted ?r))"
    by code_simp
  then have 3: "getSchema ?cur = getSchema (map snd (resources scripted ?r))
      \<or> \<not> registered registered_two_device"
    by (rule disjI1)
  have 4: "registered registered_two_device = True" "model registered_two_device = []"
    by (simp_all add: registered_two_device_def two_device_def BtDeviceLinkDevice_def)
  from value_pushes_in_order [OF 1 2 3, THEN conjunct1]
  show "calls (snd (snd (reconcile scripted registered_two_device ?r snap21)))
      = changed_pushes scripted True ?r [] ?cur"
    unfolding 4 .
  show "changed_pushes scripted True ?r [] ?cur
      = [(SetValue ''/temp'' ''21'', True), (SetValue ''/hum'' ''7'', True)]"
    by code_simp
  show "changed_pushes scripted True (two_resources, [False]) [] ?cur
      = [(SetValue ''/temp'' ''21'', False)]"
    by code_simp
qed

theorem value_push_rejection_counterexample:
  "calls (snd (snd (reconcile scripted registered_two_device (two_resources, []) snap21)))
     = [(SetValue ''/temp'' ''21'', True), (SetValue ''/hum'' ''7'', True)]
   \<and> calls (snd (snd (reconcile scripted registered_two_device (two_resources, [False]) snap21)))
     = [(SetValue ''/temp'' ''21'', False)]"
  by code_simp

subsection \<open>A second reconciliation of the same snapshot\<close>

lemma values_loop_unchanged:
  "\<forall>rule \<in> set rules. \<exists>r. find (\<lambda>r. path r = path rule) old = Some r \<and> val r = val rule \<Longrightarrow>
   values_loop this res cur old rules
     = (this\<lparr>modelUpdateInProgress := False, model := cur\<rparr>, [], Returned)"
  by (induction rules) (auto simp: Let_def)

lemma values_loop_shape:
  "values_loop this res cur old rules = (t, e, st) \<Longrightarrow>
     (st = Returned \<and> t = this\<lparr>modelUpdateInProgress := False, model := cur\<rparr>)
     \<or> (\<exists>rule rest. st = Suspended (AwaitSetValue cur old rule rest) \<and> t = this)"
  by (induction rules)
    (auto simp: model_update_failed_def Let_def split: if_splits option.splits)

lemma resume_shape:
  "carries cur p \<Longrightarrow> resume this res p ok = (t, e, st) \<Longrightarrow>
     (st = Returned \<and> t = this\<lparr>modelUpdateInProgress := False, model := cur\<rparr>)
     \<or> (\<exists>q. st = Suspended q \<and> carries cur q \<and> t = this)"
  by (cases p)
    (auto simp: model_update_failed_def split: if_splits prod.splits dest: values_loop_shape)

lemma run_final:
  "carries cur p \<Longrightarrow>
   fst (run svc this r (Suspended p)) = this\<lparr>modelUpdateInProgress := False, model := cur\<rparr>"
proof (induction "calls_left (Suspended p)" arbitrary: p this r rule: less_induct)
  case less
  obtain ok r' where p: "perform svc (awaited p) r = (ok, r')"
    by (cases "perform svc (awaited p) r")
  obtain t e st where s: "resume this (resources svc r') p ok = (t, e, st)"
    by (cases "resume this (resources svc r') p ok")
  from resume_shape [OF less.prems s] show ?case
  proof
    assume "st = Returned \<and> t = this\<lparr>modelUpdateInProgress := False, model := cur\<rparr>"
    with p s show ?thesis by simp
  next
    assume "\<exists>q. st = Suspended q \<and> carries cur q \<and> t = this"
    then obtain q where q: "st = Suspended q" "carries cur q" "t = this"
      by blast
    from resume_calls_left [OF s] q
    have "calls_left (Suspended q) < calls_left (Suspended p)"
      by simp
    from less.hyps [OF this q(2), of this r']
    have "fst (run svc this r' (Suspended q)) = this\<lparr>modelUpdateInProgress := False, model := cur\<rparr>" .
    with p s q show ?thesis
      by (cases "run svc this r' (Suspended q)") simp
  qed
qed

lemma exposesD:
  "exposes svc \<Longrightarrow> perform svc c r = (True, r') \<Longrightarrow> resources svc r' = effect c (resources svc r)"
  unfolding exposes_def by (metis fst_conv snd_conv)

lemma map_of_set_value:
  "map_of (map (\<lambda>(k, d). (k, if k = p then d\<lparr>val := v\<rparr> else d)) res) key
     = map_option (\<lambda>d. if key = p then d\<lparr>val := v\<rparr> else d) (map_of res key)"
  by (induction res) auto

lemma same_but_pushed_refl: "same_but_pushed cur res0 res0"
  by (simp add: same_but_pushed_def option.rel_refl)

lemma same_but_pushed_set_value:
  assumes "same_but_pushed cur res0 res" and "rule \<in> set cur"
  shows "same_but_pushed cur res0 (effect (SetValue (path rule) (val rule)) res)"
proof -
  have "map (schema_of \<circ> snd) (effect (SetValue (path rule) (val rule)) res)
      = map (schema_of \<circ> snd) res"
    by (induction res) (auto simp: schema_of_val)
  also from assms(1) have "\<dots> = map (schema_of \<circ> snd) res0"
    by (simp add: same_but_pushed_def)
  finally have schema: "map (schema_of \<circ> snd) (effect (SetValue (path rule) (val rule)) res)
      = map (schema_of \<circ> snd) res0" .
  have vs: "rel_option
        (\<lambda>d d0. val d = val d0 \<or> (\<exists>rule \<in> set cur. path rule = key \<and> val rule = val d))
        (map_of (effect (SetValue (path rule) (val rule)) res) key) (map_of res0 key)" for key
  proof -
    from assms(1) have "rel_option
        (\<lambda>d d0. val d = val d0 \<or> (\<exists>rule \<in> set cur. path rule = key \<and> val rule = val d))
        (map_of res key) (map_of res0 key)"
      by (simp add: same_but_pushed_def)
    with assms(2) show ?thesis
      by (cases "map_of res key"; cases "map_of res0 key") (auto simp: map_of_set_value)
  qed
  show ?thesis
    unfolding same_but_pushed_def
    by (intro conjI allI) (rule schema, rule vs)
qed

lemma run_values_loop_resources:
  assumes "exposes svc" and "same_but_pushed cur res0 (resources svc r)"
    and "set rules \<subseteq> set cur"
    and "values_loop this (resources svc r) cur old rules = (t, e, st)"
    and "run svc t r st = (t', r', e')"
    and "list_all snd (calls e')"
  shows "same_but_pushed cur res0 (resources svc r')"
  using assms(2-)
proof (induction rules arbitrary: this r t e st t' r' e')
  case Nil
  then show ?case by auto
next
  case (Cons rule rest)
  let ?old = "(case find (\<lambda>r. path r = path rule) old of
                 None \<Rightarrow> (case map_of (resources svc r) (path rule) of
                            Some r \<Rightarrow> Some (val r) | None \<Rightarrow> None)
               | Some r \<Rightarrow> Some (val r))"
  from Cons.prems(2) have rest: "set rest \<subseteq> set cur" and rule: "rule \<in> set cur"
    by simp_all
  show ?case
  proof (cases "Some (val rule) \<noteq> ?old \<and> registered this")
    case False
    with Cons.prems(3) have "values_loop this (resources svc r) cur old rest = (t, e, st)"
      by (simp add: Let_def)
    from Cons.IH [OF Cons.prems(1) rest this Cons.prems(4,5)] show ?thesis .
  next
    case changed: True
    show ?thesis
    proof (cases "map_of (resources svc r) (path rule)")
      case None
      with changed Cons.prems(3,4) have "r' = r"
        by (auto simp: Let_def model_update_failed_def)
      with Cons.prems(1) show ?thesis by simp
    next
      case (Some res_rule)
      with changed Cons.prems(3)
      have st: "st = Suspended (AwaitSetValue cur old rule rest)" and t: "t = this"
        by (auto simp: Let_def)
      obtain ok r1 where p: "perform svc (SetValue (path rule) (val rule)) r = (ok, r1)"
        by (cases "perform svc (SetValue (path rule) (val rule)) r")
      obtain t1 e1 st1
        where s: "resume this (resources svc r1) (AwaitSetValue cur old rule rest) ok = (t1, e1, st1)"
        by (cases "resume this (resources svc r1) (AwaitSetValue cur old rule rest) ok")
      obtain t2 r2 e2 where r: "run svc t1 r1 st1 = (t2, r2, e2)"
        by (cases "run svc t1 r1 st1")
      from Cons.prems(4) st t p s r
      have e': "e' = Remote (SetValue (path rule) (val rule)) ok # e1 @ e2" and r': "r' = r2"
        by simp_all
      from resume_frame [OF _ s] have "calls e1 = []"
        by simp
      with e' Cons.prems(5) have ok: "ok" and e2: "list_all snd (calls e2)"
        by (simp_all add: calls_append)
      from exposesD [OF assms(1)] p ok
      have "resources svc r1 = effect (SetValue (path rule) (val rule)) (resources svc r)"
        by simp
      with same_but_pushed_set_value [OF Cons.prems(1) rule]
      have inv: "same_but_pushed cur res0 (resources svc r1)"
        by simp
      from s ok obtain ev where "values_loop this (resources svc r1) cur old rest = (t1, ev, st1)"
        by (auto split: prod.splits)
      from Cons.IH [OF inv rest this r e2] r' show ?thesis
        by simp
    qed
  qed
qed

lemma lwm2m_rule_shape:
  "\<exists>ops v ob. \<forall>res. lwm2m_rule d res s rk wk k =
     \<lparr>path = CHR ''/'' # k, valueType = ''dynamic'', operation = ops,
      val = (case map_of res (CHR ''/'' # k) of
               Some r \<Rightarrow> if v = [] then val r else v
             | None \<Rightarrow> v),
      observable = ob\<rparr>"
  by (simp add: lwm2m_rule_def Let_def) blast

lemma lwm2m_rule_same_but_pushed:
  assumes "same_but_pushed (map (\<lambda>k. lwm2m_rule d res0 s rk wk k) ks) res0 res"
  shows "lwm2m_rule d res s rk wk k = lwm2m_rule d res0 s rk wk k"
proof -
  let ?key = "CHR ''/'' # k"
  obtain ops v ob where shape: "\<And>res. lwm2m_rule d res s rk wk k =
     \<lparr>path = ?key, valueType = ''dynamic'', operation = ops,
      val = (case map_of res ?key of Some r \<Rightarrow> if v = [] then val r else v | None \<Rightarrow> v),
      observable = ob\<rparr>"
    using lwm2m_rule_shape [of d s rk wk k] by blast
  from assms have rel: "rel_option
      (\<lambda>d' d0. val d' = val d0
         \<or> (\<exists>rule \<in> set (map (\<lambda>k. lwm2m_rule d res0 s rk wk k) ks). path rule = ?key \<and> val rule = val d'))
      (map_of res ?key) (map_of res0 ?key)"
    by (simp add: same_but_pushed_def)
  have "(case map_of res ?key of Some r \<Rightarrow> if v = [] then val r else v | None \<Rightarrow> v)
      = (case map_of res0 ?key of Some r \<Rightarrow> if v = [] then val r else v | None \<Rightarrow> v)"
  proof (cases "map_of res ?key")
    case None
    with rel show ?thesis
      by (cases "map_of res0 ?key") simp_all
  next
    case (Some d1)
    with rel obtain d0 where d0: "map_of res0 ?key = Some d0"
      and v: "val d1 = val d0
         \<or> (\<exists>rule \<in> set (map (\<lambda>k. lwm2m_rule d res0 s rk wk k) ks). path rule = ?key \<and> val rule = val d1)"
      by (cases "map_of res0 ?key") auto
    have "val d1 = val d0" if "v = []"
      using v
    proof
      assume "val d1 = val d0"
      then show ?thesis .
    next
      assume "\<exists>rule \<in> set (map (\<lambda>k. lwm2m_rule d res0 s rk wk k) ks). path rule = ?key \<and> val rule = val d1"
      then obtain k' where "path (lwm2m_rule d res0 s rk wk k') = ?key"
        and "val (lwm2m_rule d res0 s rk wk k') = val d1"
        by auto
      then have "k' = k" and "val (lwm2m_rule d res0 s rk wk k) = val d1"
        by (auto simp: path_lwm2m_rule)
      with shape [of res0] d0 that show ?thesis
        by simp
    qed
    with Some d0 show ?thesis by simp
  qed
  with shape [of res] shape [of res0] show ?thesis
    by simp
qed

lemma map_of_paths:
  assumes "\<And>k. path (f k) = CHR ''/'' # k" and "k \<in> set ks"
  shows "map_of (map (\<lambda>d. (path d, d)) (map f ks)) (CHR ''/'' # k) = Some (f k)"
  using assms(2) by (induction ks) (auto simp: assms(1))

lemma lwm2m_rule_installed:
  assumes "k \<in> set ks"
  shows "lwm2m_rule d (map (\<lambda>r. (path r, r)) (map (\<lambda>k. lwm2m_rule d res0 s rk wk k) ks)) s rk wk k
     = lwm2m_rule d res0 s rk wk k"
proof -
  let ?key = "CHR ''/'' # k"
  let ?res = "map (\<lambda>r. (path r, r)) (map (\<lambda>k. lwm2m_rule d res0 s rk wk k) ks)"
  obtain ops v ob where shape: "\<And>res. lwm2m_rule d res s rk wk k =
     \<lparr>path = ?key, valueType = ''dynamic'', operation = ops,
      val = (case map_of res ?key of Some r \<Rightarrow> if v = [] then val r else v | None \<Rightarrow> v),
      observable = ob\<rparr>"
    using lwm2m_rule_shape [of d s rk wk k] by blast
  have "map_of ?res ?key = Some (lwm2m_rule d res0 s rk wk k)"
    using assms by (intro map_of_paths) (simp_all add: path_lwm2m_rule)
  with shape [of ?res] shape [of res0] show ?thesis
    by (cases "map_of res0 ?key") auto
qed

lemma generateLwm2mModel_cases:
  obtains "write' (cloudDefinition this) = None" "generateLwm2mModel this res snap = Inl TypeError"
  | w where "write' (cloudDefinition this) = Some w"
      "generateLwm2mModel this res snap =
         Inr (map (lwm2m_rule (cloudDefinition this) res (createSimplifiedModel snap)
                    (map fst (read (cloudDefinition this))) (map fst w))
               (first_seen (map fst (read (cloudDefinition this)) @ map fst w)))"
proof (cases "write' (cloudDefinition this)")
  case None
  then have "generateLwm2mModel this res snap = Inl TypeError"
    by (simp add: generateLwm2mModel_def)
  with None that(1) show ?thesis by blast
next
  case (Some w)
  from generateLwm2mModel_eq [OF Some] Some that(2) show ?thesis by blast
qed

lemma second_pass_silent:
  assumes g: "generateLwm2mModel this1 (resources svc r1) snap = Inr cur"
    and m: "model this1 = cur"
    and f: "\<not> modelUpdateInProgress this1"
    and sch: "registered this1 \<longrightarrow> getSchema cur = getSchema (map snd (resources svc r1))"
  shows "calls (snd (snd (reconcile svc this1 r1 snap))) = []"
proof -
  have "\<exists>wk. cur =
      map (lwm2m_rule (cloudDefinition this1) (resources svc r1) (createSimplifiedModel snap)
            (map fst (read (cloudDefinition this1))) wk)
        (first_seen (map fst (read (cloudDefinition this1)) @ wk))"
  proof (cases this1 "resources svc r1" snap rule: generateLwm2mModel_cases)
    case 1
    with g show ?thesis by simp
  next
    case (2 w)
    with g have "cur =
      map (lwm2m_rule (cloudDefinition this1) (resources svc r1) (createSimplifiedModel snap)
            (map fst (read (cloudDefinition this1))) (map fst w))
        (first_seen (map fst (read (cloudDefinition this1)) @ map fst w))"
      by simp
    then show ?thesis by (rule exI [of _ "map fst w"])
  qed
  then obtain wk where cur: "cur =
      map (lwm2m_rule (cloudDefinition this1) (resources svc r1) (createSimplifiedModel snap)
            (map fst (read (cloudDefinition this1))) wk)
        (first_seen (map fst (read (cloudDefinition this1)) @ wk))" ..
  have "\<exists>r. find (\<lambda>r. path r = path rule) cur = Some r \<and> val r = val rule"
    if "rule \<in> set cur" for rule
  proof -
    from that obtain k where k: "k \<in> set (first_seen (map fst (read (cloudDefinition this1)) @ wk))"
      and rule: "rule = lwm2m_rule (cloudDefinition this1) (resources svc r1)
          (createSimplifiedModel snap) (map fst (read (cloudDefinition this1))) wk k"
      unfolding cur by auto
    have "find (\<lambda>r. path r = CHR ''/'' # k) cur = Some rule"
      unfolding cur rule using k by (intro find_path_map) (simp_all add: path_lwm2m_rule)
    moreover have "path rule = CHR ''/'' # k"
      by (simp add: rule path_lwm2m_rule)
    ultimately show ?thesis by simp
  qed
  then have "values_loop (this1\<lparr>bleModel := snap, modelUpdateInProgress := True\<rparr>)
      (resources svc r1) cur cur cur
     = (this1\<lparr>bleModel := snap, modelUpdateInProgress := True,
              modelUpdateInProgress := False, model := cur\<rparr>, [], Returned)"
    by (intro values_loop_unchanged) blast
  moreover from sch
  have "\<not> (getSchema cur \<noteq> getSchema (map snd (resources svc r1)) \<and> registered this1)"
    by blast
  ultimately have "bleModelUpdated this1 (resources svc r1) snap =
      (this1\<lparr>bleModel := snap, modelUpdateInProgress := False, model := cur\<rparr>,
       [Emit ''ble-model-updated''], Returned)"
    using g m f by (auto simp: bleModelUpdated_def Let_def)
  then show ?thesis
    by (simp add: reconcile_def)
qed

text \<open>
  C4. Reconciliation is idempotent under a repeated snapshot. Take a remote service that
  exposes what it is given, and a reconciliation of a snapshot, not dropped, that ran to
  its end with every remote call resolved. Then reconciling the same snapshot again, from
  the device and the service as the first reconciliation left them, makes no remote call.
\<close>

theorem reconcile_idempotent:
  assumes ex: "exposes svc"
    and flag: "\<not> modelUpdateInProgress this"
    and first: "reconcile svc this r snap = (this1, r1, evs1)"
    and resolved: "list_all snd (calls evs1)"
  shows "calls (snd (snd (reconcile svc this1 r1 snap))) = []"
proof (cases this "resources svc r" snap rule: generateLwm2mModel_cases)
  case 1
  with first have "this1 = this" "r1 = r"
    by (simp_all add: reconcile_def bleModelUpdated_def)
  with 1 show ?thesis
    by (simp add: reconcile_def bleModelUpdated_def)
next
  case (2 w)
  let ?d = "cloudDefinition this"
  let ?f = "\<lambda>res. lwm2m_rule ?d res (createSimplifiedModel snap) (map fst (read ?d)) (map fst w)"
  let ?ks = "first_seen (map fst (read ?d) @ map fst w)"
  let ?res0 = "resources svc r"
  let ?cur = "map (?f ?res0) ?ks"
  let ?start = "this\<lparr>bleModel := snap, modelUpdateInProgress := True\<rparr>"
  let ?done = "this\<lparr>bleModel := snap, modelUpdateInProgress := False, model := ?cur\<rparr>"
  have g: "generateLwm2mModel this ?res0 snap = Inr ?cur"
    by (rule 2(2))
  have g1: "generateLwm2mModel this1 res snap = Inr (map (?f res) ?ks)"
    if "cloudDefinition this1 = ?d" for res
    using generateLwm2mModel_eq [of this1 w res snap] 2(1) that by simp
  have "this1 = ?done \<and> map (?f (resources svc r1)) ?ks = ?cur
      \<and> (registered this \<longrightarrow> getSchema ?cur = getSchema (map snd (resources svc r1)))"
  proof (cases "getSchema ?cur \<noteq> getSchema (map snd ?res0) \<and> registered this")
    case True
    then have b: "bleModelUpdated this ?res0 snap =
        (?start, [Emit ''ble-model-updated'', Log (LSchemaChangeTo ?cur), Log LSetResourceModel],
         Suspended (AwaitSetResourceModel ?cur))"
      using flag g by (simp add: bleModelUpdated_def Let_def)
    obtain ok1 ra where p1: "perform svc (SetResourceModel ?cur) r = (ok1, ra)"
      by (cases "perform svc (SetResourceModel ?cur) r")
    obtain ok2 rb where p2: "perform svc Deregister ra = (ok2, rb)"
      by (cases "perform svc Deregister ra")
    obtain ok3 rc where p3: "perform svc Register rb = (ok3, rc)"
      by (cases "perform svc Register rb")
    from first resolved b p1 p2 p3 have ok: "ok1" "ok2" "ok3"
      by (auto simp: reconcile_def model_update_failed_def split: if_splits)
    with first b p1 p2 p3 have e: "this1 = ?done" "r1 = rc"
      by (simp_all add: reconcile_def)
    from exposesD [OF ex] p1 p2 p3 ok
    have "resources svc rc = map (\<lambda>d. (path d, d)) ?cur"
      by simp
    with e have res1: "resources svc r1 = map (\<lambda>d. (path d, d)) ?cur"
      by simp
    have "map (?f (resources svc r1)) ?ks = ?cur"
      unfolding res1 by (rule map_cong [OF refl]) (rule lwm2m_rule_installed)
    moreover have "map snd (resources svc r1) = ?cur"
      unfolding res1 by (simp add: comp_def)
    ultimately show ?thesis
      using e by simp
  next
    case False
    obtain t e st where v: "values_loop ?start ?res0 ?cur (model this) ?cur = (t, e, st)"
      by (cases "values_loop ?start ?res0 ?cur (model this) ?cur")
    obtain t' r' e' where run: "run svc t r st = (t', r', e')"
      by (cases "run svc t r st")
    from False flag g v have b: "bleModelUpdated this ?res0 snap
        = (t, Emit ''ble-model-updated'' # e, st)"
      by (auto simp: bleModelUpdated_def Let_def)
    with first run have e1: "this1 = t'" "r1 = r'" "evs1 = (Emit ''ble-model-updated'' # e) @ e'"
      by (simp_all add: reconcile_def)
    from values_loop_frame [OF v] have "calls e = []"
      by simp
    with e1 resolved have "list_all snd (calls e')"
      by (simp add: calls_append)
    from run_values_loop_resources [OF ex same_but_pushed_refl subset_refl v run this] e1
    have inv: "same_but_pushed ?cur ?res0 (resources svc r1)"
      by simp
    have "t' = ?done"
      using values_loop_shape [OF v]
    proof
      assume a: "st = Returned \<and> t = ?start\<lparr>modelUpdateInProgress := False, model := ?cur\<rparr>"
      then have "st = Returned" ..
      with run have "(t, r, []) = (t', r', e')" by simp
      then have "t' = t" by simp
      with a show ?thesis by simp
    next
      assume "\<exists>rule rest. st = Suspended (AwaitSetValue ?cur (model this) rule rest) \<and> t = ?start"
      then obtain rule rest where st: "st = Suspended (AwaitSetValue ?cur (model this) rule rest)"
        and t: "t = ?start"
        by blast
      have "fst (run svc ?start r (Suspended (AwaitSetValue ?cur (model this) rule rest)))
          = ?start\<lparr>modelUpdateInProgress := False, model := ?cur\<rparr>"
        by (rule run_final) simp
      with run st t have "t' = ?start\<lparr>modelUpdateInProgress := False, model := ?cur\<rparr>"
        by simp
      then show ?thesis by simp
    qed
    with e1 have "this1 = ?done"
      by simp
    moreover have "map (?f (resources svc r1)) ?ks = ?cur"
      by (rule map_cong [OF refl]) (rule lwm2m_rule_same_but_pushed [OF inv])
    moreover have "getSchema ?cur = getSchema (map snd (resources svc r1))" if "registered this"
    proof -
      from inv have "map schema_of (map snd (resources svc r1)) = map schema_of (map snd ?res0)"
        by (simp add: same_but_pushed_def)
      then have "getSchema (map snd (resources svc r1)) = getSchema (map snd ?res0)"
        by (rule getSchema_cong)
      with False that show ?thesis by simp
    qed
    ultimately show ?thesis by blast
  qed
  then have this1: "this1 = ?done" and same: "map (?f (resources svc r1)) ?ks = ?cur"
    and sch: "registered this \<longrightarrow> getSchema ?cur = getSchema (map snd (resources svc r1))"
    by simp_all
  from this1 have "cloudDefinition this1 = ?d"
    by simp
  from g1 [OF this, of "resources svc r1"] same
  have "generateLwm2mModel this1 (resources svc r1) snap = Inr ?cur"
    by simp
  moreover from this1 have "model this1 = ?cur" "\<not> modelUpdateInProgress this1"
    by simp_all
  moreover from this1 sch
  have "registered this1 \<longrightarrow> getSchema ?cur = getSchema (map snd (resources svc r1))"
    by simp
  ultimately show ?thesis
    by (rule second_pass_silent)
qed

lemma exposes_scripted: "exposes scripted"
  by (auto simp: exposes_def scripted_def split: list.splits)

theorem reconcile_idempotent_witness:
  "map fst (calls (snd (snd (reconcile scripted registered_temp_device ([], []) snap_c1))))
     = [SetResourceModel [temp_rule [''GET''] ''21''], Deregister, Register]
   \<and> calls (snd (snd (reconcile scripted
        (fst (reconcile scripted registered_temp_device ([], []) snap_c1))
        (fst (snd (reconcile scripted registered_temp_device ([], []) snap_c1))) snap_c1))) = []
   \<and> map fst (calls (snd (snd (reconcile scripted registered_two_device (two_resources, []) snap21))))
     = [SetValue ''/temp'' ''21'', SetValue ''/hum'' ''7'']
   \<and> calls (snd (snd (reconcile scripted
        (fst (reconcile scripted registered_two_device (two_resources, []) snap21))
        (fst (snd (reconcile scripted registered_two_device (two_resources, []) snap21))) snap21))) = []"
proof (intro conjI)
  let ?one = "reconcile scripted registered_temp_device ([], []) snap_c1"
  let ?two = "reconcile scripted registered_two_device (two_resources, []) snap21"
  show "map fst (calls (snd (snd ?one)))
      = [SetResourceModel [temp_rule [''GET''] ''21''], Deregister, Register]"
    by code_simp
  show "map fst (calls (snd (snd ?two))) = [SetValue ''/temp'' ''21'', SetValue ''/hum'' ''7'']"
    by code_simp
  have "\<not> modelUpdateInProgress registered_temp_device"
    by (simp add: registered_temp_device_def temp_device_def BtDeviceLinkDevice_def)
  moreover have "?one = (fst ?one, fst (snd ?one), snd (snd ?one))"
    by simp
  moreover have "list_all snd (calls (snd (snd ?one)))"
    by code_simp
  ultimately show "calls (snd (snd (reconcile scripted (fst ?one) (fst (snd ?one)) snap_c1))) = []"
    by (rule reconcile_idempotent [OF exposes_scripted])
  have "\<not> modelUpdateInProgress registered_two_device"
    by (simp add: registered_two_device_def two_device_def BtDeviceLinkDevice_def)
  moreover have "?two = (fst ?two, fst (snd ?two), snd (snd ?two))"
    by simp
  moreover have "list_all snd (calls (snd (snd ?two)))"
    by code_simp
  ultimately show "calls (snd (snd (reconcile scripted (fst ?two) (fst (snd ?two)) snap21))) = []"
    by (rule reconcile_idempotent [OF exposes_scripted])
qed

lemma rejected_schema_push_is_retried:
  "calls (snd (snd (reconcile scripted registered_temp_device ([], [False]) snap_c1)))
     = [(SetResourceModel [temp_rule [''GET''] ''21''], False)]
   \<and> map fst (calls (snd (snd (reconcile scripted
        (fst (reconcile scripted registered_temp_device ([], [False]) snap_c1))
        (fst (snd (reconcile scripted registered_temp_device ([], [False]) snap_c1))) snap_c1))))
     = [SetResourceModel [temp_rule [''GET''] ''21''], Deregister, Register]"
  by code_simp

end
